theory Spec2Isabelle
  imports Main "HOL-Library.Multiset" "HOL-Library.Char_ord" "HOL-Library.List_Lexorder"
begin

section \<open>The file system\<close>

text \<open>
  The pipeline reads a directory, removes and creates files and directories, and (through
  \<^verbatim>\<open>fileinput\<close>) may read the standard input. The state it works on is a record: the
  regular files by path with their decoded text, the directories by path with the names
  \<^verbatim>\<open>os.scandir\<close> lists for them (in the order it lists them), what is left unread on the
  standard input, the trace of the modifying system calls made so far, and the state of
  the user's own code (the mapper and the reducer are arbitrary callables and may keep
  state of their own).

  A path string stands for one file system object: the model has no symbolic links, no
  \<^verbatim>\<open>.\<close> or \<^verbatim>\<open>..\<close> components and no current directory, and a directory is
  known under the string without a trailing slash. The parent of a path is the head
  \<^verbatim>\<open>os.path.split\<close> gives for it. The order of a listing is the file system's; in the
  model a new entry is listed last. Permissions, encodings and full disks are not
  modelled, and a text is taken after the translation of its line ends.
\<close>

datatype exn =
    FileNotFoundError string
  | IsADirectoryError string
  | NotADirectoryError string
  | DirectoryNotEmpty string
  | FileExistsError string
  | UserError string

datatype event =
    Remove string
  | Rmdir string
  | Mkdir string
  | OpenW string
  | Write string string
  | Close string

record 'u world =
  files :: "string \<rightharpoonup> string"
  dirs :: "string \<rightharpoonup> string list"
  stdin :: string
  trace :: "event list"
  user :: 'u

type_synonym ('a, 'u) action = "'u world \<Rightarrow> (exn + 'a) \<times> 'u world"

text \<open>Sequencing: an exception of the first action ends the run with the state reached.\<close>

definition and_then :: "('a, 'u) action \<Rightarrow> ('a \<Rightarrow> ('b, 'u) action) \<Rightarrow> ('b, 'u) action" where
  "and_then m f w = (case m w of (Inl e, w') \<Rightarrow> (Inl e, w') | (Inr a, w') \<Rightarrow> f a w')"

text \<open>
  \<^verbatim>\<open>os.path.split\<close>: the tail is what follows the last slash, the head what precedes
  it, with its trailing slashes stripped unless it consists of slashes only.
\<close>

definition os_path_split :: "string \<Rightarrow> string \<times> string" where
  "os_path_split p =
     (let tail = rev (takeWhile (\<lambda>c. c \<noteq> CHR ''/'') (rev p));
          head = rev (dropWhile (\<lambda>c. c \<noteq> CHR ''/'') (rev p))
      in (if head \<noteq> [] \<and> \<not> list_all (\<lambda>c. c = CHR ''/'') head
          then rev (dropWhile (\<lambda>c. c = CHR ''/'') (rev head)) else head, tail))"

definition path_exists :: "'u world \<Rightarrow> string \<Rightarrow> bool" where
  "path_exists w p = (\<not> (files w p = None \<and> dirs w p = None))"

text \<open>Adding a name to, and taking a name from, the listing of the parent directory.\<close>

definition link_entry :: "string \<Rightarrow> (string \<rightharpoonup> string list) \<Rightarrow> (string \<rightharpoonup> string list)" where
  "link_entry p ds =
     (case os_path_split p of (head, tail) \<Rightarrow>
        (case ds head of None \<Rightarrow> ds
         | Some names \<Rightarrow> if tail \<in> set names then ds else ds(head \<mapsto> names @ [tail])))"

definition unlink_entry :: "string \<Rightarrow> (string \<rightharpoonup> string list) \<Rightarrow> (string \<rightharpoonup> string list)" where
  "unlink_entry p ds =
     (case os_path_split p of (head, tail) \<Rightarrow>
        (case ds head of None \<Rightarrow> ds | Some names \<Rightarrow> ds(head \<mapsto> removeAll tail names)))"

text \<open>\<^verbatim>\<open>os.remove\<close> deletes a regular file and nothing else.\<close>

definition os_remove :: "string \<Rightarrow> (unit, 'u) action" where
  "os_remove p w =
     (case files w p of
        None \<Rightarrow> (Inl (if dirs w p \<noteq> None then IsADirectoryError p else FileNotFoundError p), w)
      | Some text \<Rightarrow>
          (Inr (), w\<lparr>files := (files w)(p := None), dirs := unlink_entry p (dirs w),
                     trace := trace w @ [Remove p]\<rparr>))"

text \<open>\<^verbatim>\<open>os.rmdir\<close> deletes a directory that has no entry left.\<close>

definition os_rmdir :: "string \<Rightarrow> (unit, 'u) action" where
  "os_rmdir p w =
     (case dirs w p of
        None \<Rightarrow> (Inl (if files w p \<noteq> None then NotADirectoryError p else FileNotFoundError p), w)
      | Some names \<Rightarrow>
          if names \<noteq> [] then (Inl (DirectoryNotEmpty p), w)
          else (Inr (), w\<lparr>dirs := (unlink_entry p (dirs w))(p := None),
                          trace := trace w @ [Rmdir p]\<rparr>))"

text \<open>\<^verbatim>\<open>os.mkdir\<close> needs a path that is free and a parent that is a directory.\<close>

definition os_mkdir :: "string \<Rightarrow> (unit, 'u) action" where
  "os_mkdir p w =
     (if path_exists w p then (Inl (FileExistsError p), w)
      else case os_path_split p of (head, tail) \<Rightarrow>
        if head \<noteq> [] \<and> dirs w head = None
        then (Inl (if files w head \<noteq> None then NotADirectoryError p else FileNotFoundError p), w)
        else (Inr (), w\<lparr>dirs := (link_entry p (dirs w))(p \<mapsto> []),
                        trace := trace w @ [Mkdir p]\<rparr>))"

text \<open>
  \<^verbatim>\<open>os.makedirs(name)\<close> (with \<^verbatim>\<open>exist_ok=False\<close>) first creates the missing
  ancestors, swallowing only a \<^verbatim>\<open>FileExistsError\<close> of that recursive call, and
  then calls \<^verbatim>\<open>mkdir(name)\<close>.
\<close>

definition makedirs_split :: "string \<Rightarrow> string \<times> string" where
  "makedirs_split name =
     (if snd (os_path_split name) = [] then os_path_split (fst (os_path_split name))
      else os_path_split name)"

function makedirs :: "string \<Rightarrow> (unit, 'u) action" where
  "makedirs name w =
     (if fst (makedirs_split name) \<noteq> [] \<and> snd (makedirs_split name) \<noteq> []
         \<and> \<not> path_exists w (fst (makedirs_split name))
      then (case makedirs (fst (makedirs_split name)) w of
              (Inl (FileExistsError q), w') \<Rightarrow>
                 if snd (makedirs_split name) = ''.'' then (Inr (), w') else os_mkdir name w'
            | (Inl e, w') \<Rightarrow> (Inl e, w')
            | (Inr u, w') \<Rightarrow>
                 if snd (makedirs_split name) = ''.'' then (Inr (), w') else os_mkdir name w')
      else os_mkdir name w)"
  by pat_completeness auto
termination
proof (relation "measure (\<lambda>(name, w). length name)")
  show "wf (measure (\<lambda>(name, w :: 'u world). length name))" by simp
next
  fix name :: string and w :: "'u world"
  assume c: "fst (makedirs_split name) \<noteq> [] \<and> snd (makedirs_split name) \<noteq> []
    \<and> \<not> path_exists w (fst (makedirs_split name))"
  have b: "length (dropWhile Q xs) \<le> length xs" for Q and xs :: string
    by (induction xs) simp_all
  have a: "length (takeWhile P xs) + length (dropWhile P xs) = length xs" for P and xs :: string
    by (induction xs) simp_all
  have s: "length (fst (os_path_split p)) + length (snd (os_path_split p)) \<le> length p" for p
    using a [of "\<lambda>c. c \<noteq> CHR ''/''" "rev p"]
          b [of "\<lambda>c. c = CHR ''/''" "dropWhile (\<lambda>c. c \<noteq> CHR ''/'') (rev p)"]
    by (simp add: os_path_split_def Let_def)
  have "length (fst (makedirs_split name)) < length name"
  proof (cases "snd (os_path_split name) = []")
    case True
    then have m: "makedirs_split name = os_path_split (fst (os_path_split name))"
      by (simp add: makedirs_split_def)
    from c m have "snd (os_path_split (fst (os_path_split name))) \<noteq> []" by simp
    then have "length (fst (os_path_split (fst (os_path_split name))))
        < length (fst (os_path_split name))"
      using s [of "fst (os_path_split name)"]
      by (cases "snd (os_path_split (fst (os_path_split name)))") simp_all
    with s [of name] m show ?thesis by simp
  next
    case False
    then have m: "makedirs_split name = os_path_split name"
      by (simp add: makedirs_split_def)
    from False s [of name] m show ?thesis
      by (cases "snd (os_path_split name)") simp_all
  qed
  then show "((fst (makedirs_split name), w), name, w) \<in> measure (\<lambda>(name, w). length name)"
    by simp
qed

text \<open>
  Opening a file for writing creates it empty (or truncates it), writing appends to its
  text, closing ends the writing.
\<close>

definition open_w :: "string \<Rightarrow> (unit, 'u) action" where
  "open_w p w =
     (if dirs w p \<noteq> None then (Inl (IsADirectoryError p), w)
      else case os_path_split p of (head, tail) \<Rightarrow>
        if head \<noteq> [] \<and> dirs w head = None
        then (Inl (if files w head \<noteq> None then NotADirectoryError p else FileNotFoundError p), w)
        else (Inr (), w\<lparr>files := (files w)(p \<mapsto> []), dirs := link_entry p (dirs w),
                        trace := trace w @ [OpenW p]\<rparr>))"

definition write_file :: "string \<Rightarrow> string \<Rightarrow> 'u world \<Rightarrow> 'u world" where
  "write_file p text w =
     w\<lparr>files := (files w)(p \<mapsto> (case files w p of None \<Rightarrow> [] | Some old \<Rightarrow> old) @ text),
       trace := trace w @ [Write p text]\<rparr>"

definition close_file :: "string \<Rightarrow> 'u world \<Rightarrow> 'u world" where
  "close_file p w = w\<lparr>trace := trace w @ [Close p]\<rparr>"

section \<open>Listing a directory and reading its files\<close>

text \<open>
  \<^verbatim>\<open>glob.glob(f"{d}/*")\<close> for a directory path \<open>d\<close> that is literal (no wildcard
  character, no trailing slash, last component neither \<^verbatim>\<open>.\<close> nor \<^verbatim>\<open>..\<close>):
  the names of the directory that do not begin with a dot, each joined to \<open>d\<close>, in the
  order of the listing; the empty list when \<open>d\<close> is not a directory (the error of the
  listing is swallowed by \<^verbatim>\<open>glob\<close>). For such a path \<^verbatim>\<open>os.path.split\<close> of a joined
  path gives back \<open>d\<close> and the name. The properties below are stated for literal paths.
\<close>

definition literal_dir :: "string \<Rightarrow> bool" where
  "literal_dir d =
     (d \<noteq> [] \<and> last d \<noteq> CHR ''/'' \<and> \<not> list_ex (\<lambda>c. c \<in> set ''*?['') d
      \<and> snd (os_path_split d) \<noteq> ''.'' \<and> snd (os_path_split d) \<noteq> ''..'')"

definition ishidden :: "string \<Rightarrow> bool" where
  "ishidden name = (case name of [] \<Rightarrow> False | c # cs \<Rightarrow> c = CHR ''.'')"

definition glob_star :: "'u world \<Rightarrow> string \<Rightarrow> string list" where
  "glob_star w d =
     (case dirs w d of
        None \<Rightarrow> []
      | Some names \<Rightarrow> map (\<lambda>name. d @ ''/'' @ name) (filter (\<lambda>name. \<not> ishidden name) names))"

text \<open>
  The lines of a text as \<^verbatim>\<open>readline\<close> returns them until the end of the file: each
  line keeps its newline, the last one may lack it.
\<close>

fun lines_of :: "string \<Rightarrow> string list" where
  "lines_of [] = []"
| "lines_of (c # cs) =
     (if c = CHR 0x0A then [c] # lines_of cs
      else (case lines_of cs of [] \<Rightarrow> [[c]] | l # ls \<Rightarrow> (c # l) # ls))"

text \<open>
  \<^verbatim>\<open>for line in fileinput.input(files=files)\<close>, pairing each line with
  \<^verbatim>\<open>fileinput.filename()\<close>: the files are read one after the other; the name
  \<^verbatim>\<open>-\<close> stands for the standard input, which is read to its end under the name
  \<^verbatim>\<open><stdin>\<close>; a file that cannot be opened raises. \<^verbatim>\<open>fileinput\<close> replaces an
  empty list of files by \<^verbatim>\<open>('-',)\<close>.
\<close>

fun fileinput_lines :: "string list \<Rightarrow> ((string \<times> string) list, 'u) action" where
  "fileinput_lines [] w = (Inr [], w)"
| "fileinput_lines (p # ps) w =
     (if p = ''-'' then
        (case fileinput_lines ps (w\<lparr>stdin := []\<rparr>) of
           (Inl e, w') \<Rightarrow> (Inl e, w')
         | (Inr rest, w') \<Rightarrow> (Inr (map (Pair ''<stdin>'') (lines_of (stdin w)) @ rest), w'))
      else
        (case files w p of
           None \<Rightarrow> (Inl (if dirs w p \<noteq> None then IsADirectoryError p else FileNotFoundError p), w)
         | Some text \<Rightarrow>
             (case fileinput_lines ps w of
                (Inl e, w') \<Rightarrow> (Inl e, w')
              | (Inr rest, w') \<Rightarrow> (Inr (map (Pair p) (lines_of text) @ rest), w'))))"

definition fileinput_input :: "string list \<Rightarrow> ((string \<times> string) list, 'u) action" where
  "fileinput_input fs = fileinput_lines (if fs = [] then [''-''] else fs)"

section \<open>The stages of the job\<close>

definition load_input :: "string \<Rightarrow> ((string \<times> string) list, 'u) action" where
  "load_input input_directory w = fileinput_input (glob_star w input_directory) w"

text \<open>
  \<^verbatim>\<open>_shuffle_and_sort(sequence)\<close> is \<^verbatim>\<open>sorted(sequence, key=lambda x: x[0])\<close>.
  Python's \<^verbatim>\<open>sorted\<close> extracts the key of every element once, compares keys only (with
  \<^verbatim>\<open><\<close>) and is stable. On a linear order the result of a stable sort is unique, so the
  stable insertion sort \<open>sort_key\<close> of the list library computes the same list. The keys are
  of a linearly ordered type (strings under the lexicographic order of their characters);
  the values are of any type at all.
\<close>

definition shuffle_and_sort :: "('k::linorder \<times> 'v) list \<Rightarrow> ('k \<times> 'v) list" where
  "shuffle_and_sort sequence = sort_key (\<lambda>x. fst x) sequence"

text \<open>
  \<^verbatim>\<open>_create_output_directory\<close>: when the path exists, every path the glob returns
  is removed with \<^verbatim>\<open>os.remove\<close> (the list is computed once, before the first removal),
  then the directory itself with \<^verbatim>\<open>os.rmdir\<close>; in all cases \<^verbatim>\<open>os.makedirs\<close>
  follows. The first exception ends the stage.
\<close>

fun remove_each :: "string list \<Rightarrow> (unit, 'u) action" where
  "remove_each [] w = (Inr (), w)"
| "remove_each (file # rest) w =
     (case os_remove file w of (Inl e, w') \<Rightarrow> (Inl e, w') | (Inr u, w') \<Rightarrow> remove_each rest w')"

definition create_output_directory :: "string \<Rightarrow> (unit, 'u) action" where
  "create_output_directory output_directory w =
     (if path_exists w output_directory
      then and_then (remove_each (glob_star w output_directory))
             (\<lambda>u. and_then (os_rmdir output_directory) (\<lambda>u. makedirs output_directory)) w
      else makedirs output_directory w)"

text \<open>
  \<^verbatim>\<open>_save_output\<close> writes \<^verbatim>\<open>f"{key}\t{value}\n"\<close> for each record, in the order of
  the sequence, to the file \<^verbatim>\<open>part-00000\<close> of the output directory. The two functions
  \<open>fmt_key\<close> and \<open>fmt_value\<close> stand for Python's formatting of a key and of a value inside
  the f-string (the identity on strings).
\<close>

definition render :: "('k \<Rightarrow> string) \<Rightarrow> ('v \<Rightarrow> string) \<Rightarrow> 'k \<times> 'v \<Rightarrow> string" where
  "render fmt_key fmt_value r = fmt_key (fst r) @ [CHR 0x09] @ fmt_value (snd r) @ [CHR 0x0A]"

fun write_each :: "string \<Rightarrow> string list \<Rightarrow> 'u world \<Rightarrow> 'u world" where
  "write_each p [] w = w"
| "write_each p (text # rest) w = write_each p rest (write_file p text w)"

definition save_output ::
  "('k \<Rightarrow> string) \<Rightarrow> ('v \<Rightarrow> string) \<Rightarrow> string \<Rightarrow> ('k \<times> 'v) list \<Rightarrow> (unit, 'u) action" where
  "save_output fmt_key fmt_value output_directory sequence w =
     (case open_w (output_directory @ ''/part-00000'') w of
        (Inl e, w') \<Rightarrow> (Inl e, w')
      | (Inr u, w') \<Rightarrow>
          (Inr (), close_file (output_directory @ ''/part-00000'')
                     (write_each (output_directory @ ''/part-00000'')
                        (map (render fmt_key fmt_value) sequence) w')))"

text \<open>\<^verbatim>\<open>_create_marker\<close> writes the empty string to the file \<^verbatim>\<open>_SUCCESS\<close>.\<close>

definition create_marker :: "string \<Rightarrow> (unit, 'u) action" where
  "create_marker output_directory w =
     (case open_w (output_directory @ ''/_SUCCESS'') w of
        (Inl e, w') \<Rightarrow> (Inl e, w')
      | (Inr u, w') \<Rightarrow>
          (Inr (), close_file (output_directory @ ''/_SUCCESS'')
                     (write_file (output_directory @ ''/_SUCCESS'') [] w')))"

section \<open>The job\<close>

text \<open>
  The mapper and the reducer are callables of the user: each takes a whole sequence and
  the state of the user's code, and returns a sequence or raises, with the new state.
  \<^verbatim>\<open>run_mapreduce_job\<close> is the straight line of the source: load, map, shuffle and
  sort, reduce, create the output directory, save, mark.
\<close>

definition call_user :: "('a \<Rightarrow> 'u \<Rightarrow> (exn + 'b) \<times> 'u) \<Rightarrow> 'a \<Rightarrow> ('b, 'u) action" where
  "call_user f x w = (case f x (user w) of (r, u) \<Rightarrow> (r, w\<lparr>user := u\<rparr>))"

definition run_mapreduce_job ::
  "('k2 \<Rightarrow> string) \<Rightarrow> ('v2 \<Rightarrow> string)
   \<Rightarrow> ((string \<times> string) list \<Rightarrow> 'u \<Rightarrow> (exn + ('k::linorder \<times> 'v) list) \<times> 'u)
   \<Rightarrow> (('k \<times> 'v) list \<Rightarrow> 'u \<Rightarrow> (exn + ('k2 \<times> 'v2) list) \<times> 'u)
   \<Rightarrow> string \<Rightarrow> string \<Rightarrow> (unit, 'u) action" where
  "run_mapreduce_job fmt_key fmt_value mapper reducer input_directory output_directory =
     and_then (load_input input_directory) (\<lambda>sequence.
     and_then (call_user mapper sequence) (\<lambda>sequence.
     and_then (call_user reducer (shuffle_and_sort sequence)) (\<lambda>sequence.
     and_then (create_output_directory output_directory) (\<lambda>u.
     and_then (save_output fmt_key fmt_value output_directory sequence) (\<lambda>u.
     create_marker output_directory)))))"

section \<open>Notions used in the properties\<close>

text \<open>The system calls of the reset of the output directory, as opposed to the writes.\<close>

fun reset_event :: "event \<Rightarrow> bool" where
  "reset_event (Remove p) = True"
| "reset_event (Rmdir p) = True"
| "reset_event (Mkdir p) = True"
| "reset_event (OpenW p) = False"
| "reset_event (Write p text) = False"
| "reset_event (Close p) = False"

text \<open>
  What a step of the reset may do to a state: it leaves the standard input and the
  user's state alone, creates or changes no regular file, and adds only reset events to
  the trace.
\<close>

definition reset_step :: "'u world \<Rightarrow> 'u world \<Rightarrow> bool" where
  "reset_step w w' =
     (stdin w' = stdin w \<and> user w' = user w
      \<and> (\<forall>q. files w' q \<noteq> None \<longrightarrow> files w' q = files w q)
      \<and> (\<exists>evs. trace w' = trace w @ evs \<and> list_all reset_event evs))"

text \<open>A callable is deterministic when what it returns does not depend on the user's state.\<close>

definition deterministic :: "('a \<Rightarrow> 'u \<Rightarrow> (exn + 'b) \<times> 'u) \<Rightarrow> bool" where
  "deterministic f = (\<forall>x u u'. fst (f x u) = fst (f x u'))"

text \<open>
  The contents of a directory: its entries, in the order of its listing, each with the
  text of the regular file of that name (or nothing, for an entry that is no regular file).
\<close>

definition dir_contents :: "'u world \<Rightarrow> string \<Rightarrow> (string \<times> string option) list option" where
  "dir_contents w d = map_option (map (\<lambda>n. (n, files w (d @ ''/'' @ n)))) (dirs w d)"

section \<open>An example state and example callables\<close>

text \<open>
  A state with an input directory holding two visible files and a hidden one, an empty
  directory, an output directory left by an earlier run with a stale file in it, a
  further directory with one file, and one line waiting on the standard
  input. The user's state counts the calls of the mapper and of the reducer. The word
  mapper emits each line without its newline as a key, with the value \<^verbatim>\<open>1\<close>; the echo
  mapper emits each line as it is, newline included, as a key, with the name of its file
  as the value; the echo reducer returns its input.
\<close>

definition example_world :: "(nat \<times> nat) world" where
  "example_world =
     \<lparr>files = [''in/a'' \<mapsto> ''b\<newline>a\<newline>'', ''in/.hidden'' \<mapsto> ''z\<newline>'', ''in/c'' \<mapsto> ''a'',
               ''out/stale'' \<mapsto> ''old'', ''out/_SUCCESS'' \<mapsto> [],
               ''shared/a'' \<mapsto> ''x\<newline>''],
      dirs = [''in'' \<mapsto> [''a'', ''.hidden'', ''c''], ''empty'' \<mapsto> [],
              ''out'' \<mapsto> [''stale'', ''_SUCCESS''], ''shared'' \<mapsto> [''a'']],
      stdin = ''s\<newline>'', trace = [], user = (0, 0)\<rparr>"

definition word_mapper ::
  "(string \<times> string) list \<Rightarrow> nat \<times> nat \<Rightarrow> (exn + (string \<times> string) list) \<times> (nat \<times> nat)" where
  "word_mapper sequence u =
     (Inr (map (\<lambda>(name, line). (filter (\<lambda>c. c \<noteq> CHR 0x0A) line, ''1'')) sequence),
      (Suc (fst u), snd u))"

definition echo_mapper ::
  "(string \<times> string) list \<Rightarrow> nat \<times> nat \<Rightarrow> (exn + (string \<times> string) list) \<times> (nat \<times> nat)" where
  "echo_mapper sequence u =
     (Inr (map (\<lambda>(name, line). (line, name)) sequence), (Suc (fst u), snd u))"

definition failing_mapper ::
  "(string \<times> string) list \<Rightarrow> nat \<times> nat \<Rightarrow> (exn + (string \<times> string) list) \<times> (nat \<times> nat)" where
  "failing_mapper sequence u = (Inl (UserError ''boom''), (Suc (fst u), snd u))"

definition echo_reducer ::
  "(string \<times> string) list \<Rightarrow> nat \<times> nat \<Rightarrow> (exn + (string \<times> string) list) \<times> (nat \<times> nat)" where
  "echo_reducer sequence u = (Inr sequence, (fst u, Suc (snd u)))"

definition failing_reducer ::
  "(string \<times> string) list \<Rightarrow> nat \<times> nat \<Rightarrow> (exn + (string \<times> string) list) \<times> (nat \<times> nat)" where
  "failing_reducer sequence u = (Inl (UserError ''bang''), (fst u, Suc (snd u)))"

text \<open>Runs of the job on the example state.\<close>

definition example_run :: "(exn + unit) \<times> (nat \<times> nat) world" where
  "example_run =
     run_mapreduce_job (\<lambda>k. k) (\<lambda>v. v) word_mapper echo_reducer ''in'' ''out'' example_world"

definition example_second_run :: "(exn + unit) \<times> (nat \<times> nat) world" where
  "example_second_run =
     run_mapreduce_job (\<lambda>k. k) (\<lambda>v. v) word_mapper echo_reducer ''in'' ''out'' (snd example_run)"

definition example_echo_run :: "(exn + unit) \<times> (nat \<times> nat) world" where
  "example_echo_run =
     run_mapreduce_job (\<lambda>k. k) (\<lambda>v. v) echo_mapper echo_reducer ''in'' ''out'' example_world"

definition example_failed_run :: "(exn + unit) \<times> (nat \<times> nat) world" where
  "example_failed_run =
     run_mapreduce_job (\<lambda>k. k) (\<lambda>v. v) failing_mapper echo_reducer ''in'' ''out'' example_world"

definition empty_first_run :: "(exn + unit) \<times> (nat \<times> nat) world" where
  "empty_first_run =
     run_mapreduce_job (\<lambda>k. k) (\<lambda>v. v) word_mapper echo_reducer ''empty'' ''out''
       example_world"

definition empty_second_run :: "(exn + unit) \<times> (nat \<times> nat) world" where
  "empty_second_run =
     run_mapreduce_job (\<lambda>k. k) (\<lambda>v. v) word_mapper echo_reducer ''empty'' ''out''
       (snd empty_first_run)"

section \<open>Lemmas on paths, the loader and the reset\<close>

declare makedirs.simps [simp del]

lemma joined_not_dash: "d @ CHR ''/'' # n \<noteq> ''-''" "''-'' \<noteq> d @ CHR ''/'' # n"
  by (cases d; auto)+

lemma os_path_split_join:
  assumes "d \<noteq> []" and "last d \<noteq> CHR ''/''" and "CHR ''/'' \<notin> set n"
  shows "os_path_split (d @ CHR ''/'' # n) = (d, n)"
proof -
  have t: "takeWhile (\<lambda>c. c \<noteq> CHR ''/'') (rev n @ CHR ''/'' # rev d) = rev n"
    using assms(3) by (subst takeWhile_append2) auto
  have dr: "dropWhile (\<lambda>c. c \<noteq> CHR ''/'') (rev n @ CHR ''/'' # rev d) = CHR ''/'' # rev d"
    using assms(3) by (subst dropWhile_append2) auto
  from assms(1,2) obtain c cs where rd: "rev d = c # cs" and c: "c \<noteq> CHR ''/''"
    by (cases d rule: rev_cases) auto
  have na: "\<not> list_all (\<lambda>c. c = CHR ''/'') (d @ ''/'')"
    using assms(1,2) by (cases d rule: rev_cases) auto
  show ?thesis
    using t dr na rd c by (simp add: os_path_split_def Let_def)
qed

lemma os_path_split_shorter:
  assumes "d \<noteq> []" and "last d \<noteq> CHR ''/''"
  shows "snd (os_path_split d) \<noteq> [] \<and> fst (os_path_split d) \<noteq> d"
proof -
  from assms obtain c cs where rd: "rev d = c # cs" and c: "c \<noteq> CHR ''/''"
    by (cases d rule: rev_cases) auto
  have tl: "snd (os_path_split d) \<noteq> []"
    using rd c by (simp add: os_path_split_def Let_def)
  have a: "length (takeWhile P xs) + length (dropWhile P xs) = length xs" for P and xs :: string
    by (induction xs) simp_all
  have b: "length (dropWhile Q xs) \<le> length xs" for Q and xs :: string
    by (induction xs) simp_all
  have "length (fst (os_path_split d)) + length (snd (os_path_split d)) \<le> length d"
    using a [of "\<lambda>c. c \<noteq> CHR ''/''" "rev d"]
          b [of "\<lambda>c. c = CHR ''/''" "dropWhile (\<lambda>c. c \<noteq> CHR ''/'') (rev d)"]
    by (simp add: os_path_split_def Let_def)
  with tl have "length (fst (os_path_split d)) < length d"
    by (cases "snd (os_path_split d)") simp_all
  with tl show ?thesis by auto
qed

lemma fileinput_lines_files:
  "\<forall>p\<in>set ps. p \<noteq> ''-'' \<and> files w p \<noteq> None \<Longrightarrow>
   fileinput_lines ps w = (Inr (concat (map (\<lambda>p. map (Pair p) (lines_of (the (files w p)))) ps)), w)"
  by (induction ps) auto

lemma fileinput_lines_success:
  "fileinput_lines ps w = (Inr recs, w') \<Longrightarrow> ''-'' \<notin> set ps \<Longrightarrow>
   recs = concat (map (\<lambda>p. map (Pair p) (lines_of (the (files w p)))) ps) \<and> w' = w"
  by (induction ps arbitrary: recs) (auto split: option.splits prod.splits sum.splits if_splits)

lemma fileinput_lines_frame:
  "fileinput_lines ps w = (r, w') \<Longrightarrow>
   files w' = files w \<and> dirs w' = dirs w \<and> trace w' = trace w \<and> user w' = user w"
proof (induction ps arbitrary: w r w')
  case Nil
  then show ?case by simp
next
  case (Cons p ps)
  show ?case
  proof (cases "p = ''-''")
    case True
    obtain r1 w1 where r1: "fileinput_lines ps (w\<lparr>stdin := []\<rparr>) = (r1, w1)"
      by (cases "fileinput_lines ps (w\<lparr>stdin := []\<rparr>)")
    from Cons.prems True r1 have "w' = w1" by (auto split: sum.splits)
    with Cons.IH [OF r1] show ?thesis by simp
  next
    case False
    show ?thesis
    proof (cases "files w p")
      case None
      with Cons.prems False show ?thesis by auto
    next
      case (Some content)
      obtain r1 w1 where r1: "fileinput_lines ps w = (r1, w1)"
        by (cases "fileinput_lines ps w")
      from Cons.prems False Some r1 have "w' = w1" by (auto split: sum.splits)
      with Cons.IH [OF r1] show ?thesis by simp
    qed
  qed
qed

lemma glob_star_not_dash: "''-'' \<notin> set (glob_star w d)"
  using joined_not_dash by (auto simp: glob_star_def split: option.splits)

lemma load_input_frame:
  "load_input d w = (r, w') \<Longrightarrow>
   files w' = files w \<and> dirs w' = dirs w \<and> trace w' = trace w \<and> user w' = user w"
  unfolding load_input_def fileinput_input_def by (rule fileinput_lines_frame)

lemma blocks_keys: "fst ` set (concat (map (\<lambda>p. map (Pair p) (f p)) ps)) \<subseteq> set ps"
  by (induction ps) auto

lemma reset_step_refl: "reset_step w w"
  by (simp add: reset_step_def)

lemma reset_step_trans: "reset_step w w1 \<Longrightarrow> reset_step w1 w2 \<Longrightarrow> reset_step w w2"
  unfolding reset_step_def
  by (elim conjE exE, intro conjI) (auto simp: list_all_append)

lemma os_remove_step: "os_remove p w = (r, w') \<Longrightarrow> reset_step w w'"
  by (auto simp: os_remove_def reset_step_def split: option.splits if_splits)

lemma os_rmdir_step: "os_rmdir p w = (r, w') \<Longrightarrow> reset_step w w'"
  by (auto simp: os_rmdir_def reset_step_def split: option.splits if_splits)

lemma os_mkdir_step: "os_mkdir p w = (r, w') \<Longrightarrow> reset_step w w'"
  by (auto simp: os_mkdir_def reset_step_def split: option.splits if_splits prod.splits)

lemma remove_each_step: "remove_each ps w = (r, w') \<Longrightarrow> reset_step w w'"
proof (induction ps arbitrary: w)
  case Nil
  then show ?case by (simp add: reset_step_refl)
next
  case (Cons p ps)
  obtain r1 w1 where r1: "os_remove p w = (r1, w1)" by (cases "os_remove p w")
  show ?case
  proof (cases r1)
    case (Inl e)
    with Cons.prems r1 have "w' = w1" by simp
    with os_remove_step [OF r1] show ?thesis by simp
  next
    case (Inr u)
    with Cons.prems r1 have "remove_each ps w1 = (r, w')" by simp
    from reset_step_trans [OF os_remove_step [OF r1] Cons.IH [OF this]] show ?thesis .
  qed
qed

lemma makedirs_cases:
  assumes "makedirs name w = (r, w')"
  shows "os_mkdir name w = (r, w')
    \<or> (\<exists>r1 w1. makedirs (fst (makedirs_split name)) w = (r1, w1)
          \<and> fst (makedirs_split name) \<noteq> [] \<and> snd (makedirs_split name) \<noteq> []
          \<and> ((r, w') = (r1, w1) \<and> r1 \<noteq> Inr ()
              \<or> (r, w') = (Inr (), w1) \<and> snd (makedirs_split name) = ''.''
              \<or> os_mkdir name w1 = (r, w')))"
proof (cases "fst (makedirs_split name) \<noteq> [] \<and> snd (makedirs_split name) \<noteq> []
         \<and> \<not> path_exists w (fst (makedirs_split name))")
  case False
  with assms have "os_mkdir name w = (r, w')" by (subst (asm) makedirs.simps) simp
  then show ?thesis by simp
next
  case True
  obtain r1 w1 where r1: "makedirs (fst (makedirs_split name)) w = (r1, w1)"
    by (cases "makedirs (fst (makedirs_split name)) w")
  from assms True r1
  have "(r, w') = (r1, w1) \<and> r1 \<noteq> Inr () \<or> (r, w') = (Inr (), w1) \<and> snd (makedirs_split name) = ''.''
      \<or> os_mkdir name w1 = (r, w')"
    by (subst (asm) makedirs.simps) (auto split: sum.splits exn.splits if_splits)
  with True r1 show ?thesis by blast
qed

lemma makedirs_step: "makedirs name w = (r, w') \<Longrightarrow> reset_step w w'"
proof (induction name w arbitrary: r w' rule: makedirs.induct)
  case (1 name w)
  let ?c = "fst (makedirs_split name) \<noteq> [] \<and> snd (makedirs_split name) \<noteq> []
         \<and> \<not> path_exists w (fst (makedirs_split name))"
  show ?case
  proof (cases ?c)
    case False
    with "1.prems" have "os_mkdir name w = (r, w')" by (subst (asm) makedirs.simps) simp
    then show ?thesis by (rule os_mkdir_step)
  next
    case True
    obtain r1 w1 where r1: "makedirs (fst (makedirs_split name)) w = (r1, w1)"
      by (cases "makedirs (fst (makedirs_split name)) w")
    from "1.IH" [OF True r1] have s1: "reset_step w w1" .
    from "1.prems" True r1
    have "(r, w') = (r1, w1) \<or> (r, w') = (Inr (), w1) \<or> os_mkdir name w1 = (r, w')"
      by (subst (asm) makedirs.simps) (auto split: sum.splits exn.splits if_splits)
    then show ?thesis
      using s1 reset_step_trans [OF s1 os_mkdir_step] by auto
  qed
qed

lemma and_then_cases:
  "and_then m f w = (r, w') \<Longrightarrow>
   (\<exists>e. m w = (Inl e, w') \<and> r = Inl e) \<or> (\<exists>a w1. m w = (Inr a, w1) \<and> f a w1 = (r, w'))"
  by (auto simp: and_then_def split: prod.splits sum.splits)

lemma create_output_directory_cases:
  assumes "create_output_directory d w = (r, w')"
  shows "(\<not> path_exists w d \<and> makedirs d w = (r, w'))
    \<or> (path_exists w d \<and> (\<exists>e. remove_each (glob_star w d) w = (Inl e, w') \<and> r = Inl e))
    \<or> (path_exists w d \<and> (\<exists>w1. remove_each (glob_star w d) w = (Inr (), w1)
          \<and> (\<exists>e. os_rmdir d w1 = (Inl e, w') \<and> r = Inl e)))
    \<or> (path_exists w d \<and> (\<exists>w1 w2. remove_each (glob_star w d) w = (Inr (), w1)
          \<and> os_rmdir d w1 = (Inr (), w2) \<and> makedirs d w2 = (r, w')))"
  using assms unfolding create_output_directory_def
  by (auto split: if_splits dest!: and_then_cases)

lemma create_output_directory_step:
  assumes "create_output_directory d w = (r, w')"
  shows "reset_step w w'"
  using create_output_directory_cases [OF assms]
proof (elim disjE conjE exE)
  assume "makedirs d w = (r, w')"
  then show ?thesis by (rule makedirs_step)
next
  fix e assume "remove_each (glob_star w d) w = (Inl e, w')"
  then show ?thesis by (rule remove_each_step)
next
  fix w1 e
  assume "remove_each (glob_star w d) w = (Inr (), w1)" and "os_rmdir d w1 = (Inl e, w')"
  then show ?thesis by (blast intro: reset_step_trans remove_each_step os_rmdir_step)
next
  fix w1 w2
  assume a: "remove_each (glob_star w d) w = (Inr (), w1)" and b: "os_rmdir d w1 = (Inr (), w2)"
    and c: "makedirs d w2 = (r, w')"
  from reset_step_trans [OF remove_each_step [OF a]
         reset_step_trans [OF os_rmdir_step [OF b] makedirs_step [OF c]]]
  show ?thesis .
qed

section \<open>Lemmas on the reset and the writes of a run\<close>

lemma literal_dirD:
  assumes "literal_dir d"
  shows "d \<noteq> []" and "last d \<noteq> CHR ''/''" and "snd (os_path_split d) \<noteq> []"
    and "snd (os_path_split d) \<noteq> ''.''" and "fst (os_path_split d) \<noteq> d"
    and "makedirs_split d = os_path_split d"
    and "os_path_split (d @ ''/part-00000'') = (d, ''part-00000'')"
    and "os_path_split (d @ ''/_SUCCESS'') = (d, ''_SUCCESS'')"
proof -
  from assms show a: "d \<noteq> []" and b: "last d \<noteq> CHR ''/''" and "snd (os_path_split d) \<noteq> ''.''"
    by (simp_all add: literal_dir_def)
  from os_path_split_shorter [OF a b]
  show c: "snd (os_path_split d) \<noteq> []" and "fst (os_path_split d) \<noteq> d" by simp_all
  from c show "makedirs_split d = os_path_split d" by (simp add: makedirs_split_def)
  from os_path_split_join [OF a b, of "''part-00000''"]
  show "os_path_split (d @ ''/part-00000'') = (d, ''part-00000'')" by simp
  from os_path_split_join [OF a b, of "''_SUCCESS''"]
  show "os_path_split (d @ ''/_SUCCESS'') = (d, ''_SUCCESS'')" by simp
qed

lemma link_entry_dom: "(link_entry p ds q = None) = (ds q = None)"
  by (auto simp: link_entry_def split: prod.splits option.splits if_splits)

lemma unlink_entry_dom: "(unlink_entry p ds q = None) = (ds q = None)"
  by (auto simp: unlink_entry_def split: prod.splits option.splits if_splits)

lemma unlink_entry_at:
  "os_path_split p = (d, n) \<Longrightarrow> ds d = Some names \<Longrightarrow> unlink_entry p ds d = Some (removeAll n names)"
  by (simp add: unlink_entry_def)

lemma link_entry_at:
  "os_path_split p = (d, n) \<Longrightarrow> ds d = Some names \<Longrightarrow>
   link_entry p ds d = Some (if n \<in> set names then names else names @ [n])"
  by (simp add: link_entry_def)

lemma os_remove_done:
  assumes "os_remove p w = (Inr (), w')"
  shows "files w p \<noteq> None" and "files w' = (files w)(p := None)"
    and "dirs w' = unlink_entry p (dirs w)" and "trace w' = trace w @ [Remove p]"
  using assms by (auto simp: os_remove_def split: option.splits)

lemma os_remove_ok:
  "files w p \<noteq> None \<Longrightarrow> \<exists>w'. os_remove p w = (Inr (), w')"
  by (auto simp: os_remove_def)

lemma os_rmdir_done:
  assumes "os_rmdir d w = (Inr (), w')"
  shows "dirs w d = Some []" and "files w' = files w"
    and "dirs w' = (unlink_entry d (dirs w))(d := None)" and "trace w' = trace w @ [Rmdir d]"
  using assms by (auto simp: os_rmdir_def split: option.splits if_splits)

lemma os_rmdir_ok: "dirs w d = Some [] \<Longrightarrow> \<exists>w'. os_rmdir d w = (Inr (), w')"
  by (simp add: os_rmdir_def)

lemma os_mkdir_done:
  assumes "os_mkdir d w = (Inr (), w')"
  shows "files w d = None" and "dirs w d = None"
    and "fst (os_path_split d) = [] \<or> dirs w (fst (os_path_split d)) \<noteq> None"
    and "files w' = files w" and "dirs w' = (link_entry d (dirs w))(d \<mapsto> [])"
    and "trace w' = trace w @ [Mkdir d]"
  using assms
  by (auto simp: os_mkdir_def path_exists_def split: option.splits if_splits prod.splits)

lemma os_mkdir_ok:
  assumes "files w d = None" and "dirs w d = None"
    and "fst (os_path_split d) = [] \<or> dirs w (fst (os_path_split d)) \<noteq> None"
  shows "\<exists>w'. os_mkdir d w = (Inr (), w')"
  using assms by (auto simp: os_mkdir_def path_exists_def split: prod.splits)

lemma remove_each_done:
  "remove_each ps w = (Inr (), w') \<Longrightarrow>
   trace w' = trace w @ map Remove ps \<and> (\<forall>p\<in>set ps. files w' p = None)
   \<and> (\<forall>q. (dirs w' q = None) = (dirs w q = None))"
proof (induction ps arbitrary: w)
  case Nil
  then show ?case by simp
next
  case (Cons p ps)
  obtain r1 w1 where r1: "os_remove p w = (r1, w1)" by (cases "os_remove p w")
  with Cons.prems have ok: "os_remove p w = (Inr (), w1)" and rest: "remove_each ps w1 = (Inr (), w')"
    by (auto split: sum.splits)
  from remove_each_step [OF rest] have "\<forall>q. files w' q \<noteq> None \<longrightarrow> files w' q = files w1 q"
    by (simp add: reset_step_def)
  moreover from os_remove_done [OF ok] have "files w1 p = None" by simp
  ultimately have "files w' p = None" by (cases "files w' p") auto
  with Cons.IH [OF rest] os_remove_done [OF ok] show ?case
    by (simp add: unlink_entry_dom)
qed

lemma remove_each_listing:
  assumes "d \<noteq> []" and "last d \<noteq> CHR ''/''"
  shows "\<forall>n\<in>set ns. CHR ''/'' \<notin> set n \<Longrightarrow> dirs w d = Some names \<Longrightarrow>
    remove_each (map (\<lambda>n. d @ ''/'' @ n) ns) w = (Inr (), w') \<Longrightarrow>
    dirs w' d = Some (filter (\<lambda>n. n \<notin> set ns) names)"
proof (induction ns arbitrary: w names)
  case Nil
  then show ?case by simp
next
  case (Cons n ns)
  obtain r1 w1 where r1: "os_remove (d @ ''/'' @ n) w = (r1, w1)"
    by (cases "os_remove (d @ ''/'' @ n) w")
  with Cons.prems(3) have ok: "os_remove (d @ ''/'' @ n) w = (Inr (), w1)"
    and rest: "remove_each (map (\<lambda>n. d @ ''/'' @ n) ns) w1 = (Inr (), w')"
    by (auto split: sum.splits)
  from Cons.prems(1) have sp: "os_path_split (d @ ''/'' @ n) = (d, n)"
    using os_path_split_join [OF assms, of n] by simp
  from os_remove_done(3) [OF ok] unlink_entry_at [where ds = "dirs w", OF sp Cons.prems(2)]
  have l1: "dirs w1 d = Some (removeAll n names)" by simp
  from Cons.prems(1) have "\<forall>n\<in>set ns. CHR ''/'' \<notin> set n" by simp
  from Cons.IH [OF this l1 rest] show ?case
    by (simp add: removeAll_filter_not_eq) (metis (mono_tags, lifting) filter_cong)
qed

lemma remove_each_ok:
  "distinct ps \<Longrightarrow> \<forall>p\<in>set ps. files w p \<noteq> None \<Longrightarrow> \<exists>w'. remove_each ps w = (Inr (), w')"
proof (induction ps arbitrary: w)
  case Nil
  then show ?case by simp
next
  case (Cons p ps)
  from Cons.prems obtain w1 where ok: "os_remove p w = (Inr (), w1)"
    using os_remove_ok [of w p] by auto
  from os_remove_done(2) [OF ok] Cons.prems have "\<forall>q\<in>set ps. files w1 q \<noteq> None" by auto
  with Cons.IH [of w1] Cons.prems(1) obtain w' where "remove_each ps w1 = (Inr (), w')" by auto
  with ok show ?case by simp
qed

lemma makedirs_frame:
  "makedirs name (w :: 'u world) = (r, w') \<Longrightarrow>
   files w' = files w \<and> (\<exists>anc. trace w' = trace w @ map Mkdir anc)"
proof (induction name w arbitrary: r w' rule: makedirs.induct)
  case (1 name w)
  let ?c = "fst (makedirs_split name) \<noteq> [] \<and> snd (makedirs_split name) \<noteq> []
         \<and> \<not> path_exists w (fst (makedirs_split name))"
  have mk: "files w2 = files w1 \<and> (\<exists>anc. trace w2 = trace w1 @ map Mkdir anc)"
    if "os_mkdir name w1 = (r, w2)" for w1 w2 :: "'u world"
  proof (cases r)
    case (Inl e)
    with that have "w2 = w1"
      by (auto simp: os_mkdir_def split: if_splits prod.splits)
    then show ?thesis by simp
  next
    case (Inr u)
    with that os_mkdir_done [of name w1 w2] have "files w2 = files w1"
      "trace w2 = trace w1 @ map Mkdir [name]" by simp_all
    then show ?thesis by blast
  qed
  show ?case
  proof (cases ?c)
    case False
    with "1.prems" have "os_mkdir name w = (r, w')" by (subst (asm) makedirs.simps) simp
    then show ?thesis by (rule mk)
  next
    case True
    obtain r1 w1 where r1: "makedirs (fst (makedirs_split name)) w = (r1, w1)"
      by (cases "makedirs (fst (makedirs_split name)) w")
    from "1.IH" [OF True r1] obtain anc where s1: "files w1 = files w"
      "trace w1 = trace w @ map Mkdir anc" by auto
    from "1.prems" True r1
    have "(r, w') = (r1, w1) \<or> (r, w') = (Inr (), w1) \<or> os_mkdir name w1 = (r, w')"
      by (subst (asm) makedirs.simps) (auto split: sum.splits exn.splits if_splits)
    then show ?thesis
    proof (elim disjE)
      assume "os_mkdir name w1 = (r, w')"
      from mk [OF this] obtain anc2 where "files w' = files w1"
        "trace w' = trace w1 @ map Mkdir anc2" by auto
      with s1 have "files w' = files w" "trace w' = trace w @ map Mkdir (anc @ anc2)" by simp_all
      then show ?thesis by blast
    qed (use s1 in auto)
  qed
qed

lemma makedirs_done:
  assumes "literal_dir d" and "makedirs d w = (Inr (), w')"
  shows "\<exists>w0 anc. os_mkdir d w0 = (Inr (), w') \<and> files w0 = files w
           \<and> trace w0 = trace w @ map Mkdir anc"
  using makedirs_cases [OF assms(2)]
proof (elim disjE exE conjE)
  assume "os_mkdir d w = (Inr (), w')"
  then have "os_mkdir d w = (Inr (), w') \<and> files w = files w \<and> trace w = trace w @ map Mkdir []"
    by simp
  then show ?thesis by blast
next
  fix r1 w1
  assume "(Inr (), w') = (r1, w1)" and "r1 \<noteq> Inr ()"
  then show ?thesis by simp
next
  fix r1 w1
  assume "snd (makedirs_split d) = ''.''"
  with literal_dirD(4,6) [OF assms(1)] show ?thesis by simp
next
  fix r1 w1
  assume a: "makedirs (fst (makedirs_split d)) w = (r1, w1)" and b: "os_mkdir d w1 = (Inr (), w')"
  from makedirs_frame [OF a] b show ?thesis by blast
qed

lemma makedirs_ok:
  assumes "literal_dir d" and "files w d = None" and "dirs w d = None"
    and "fst (os_path_split d) = [] \<or> dirs w (fst (os_path_split d)) \<noteq> None"
  shows "\<exists>w'. makedirs d w = (Inr (), w') \<and> os_mkdir d w = (Inr (), w')"
proof -
  from assms(4) literal_dirD(6) [OF assms(1)]
  have c: "(fst (makedirs_split d) \<noteq> [] \<and> snd (makedirs_split d) \<noteq> []
         \<and> \<not> path_exists w (fst (makedirs_split d))) = False"
    by (auto simp: path_exists_def)
  have "makedirs d w = os_mkdir d w" by (subst makedirs.simps) (simp only: c if_False)
  with os_mkdir_ok [OF assms(2,3,4)] show ?thesis by auto
qed

lemma write_each_effect:
  "files w p = Some old \<Longrightarrow>
   files (write_each p ts w) = (files w)(p \<mapsto> old @ concat ts)
   \<and> dirs (write_each p ts w) = dirs w
   \<and> trace (write_each p ts w) = trace w @ map (Write p) ts
   \<and> stdin (write_each p ts w) = stdin w \<and> user (write_each p ts w) = user w"
proof (induction ts arbitrary: w old)
  case Nil
  then show ?case by auto
next
  case (Cons t ts)
  have f: "files (write_file p t w) = (files w)(p \<mapsto> old @ t)"
    and o: "dirs (write_file p t w) = dirs w" "trace (write_file p t w) = trace w @ [Write p t]"
      "stdin (write_file p t w) = stdin w" "user (write_file p t w) = user w"
    using Cons.prems by (simp_all add: write_file_def)
  from f have "files (write_file p t w) p = Some (old @ t)" by simp
  from Cons.IH [OF this] f o show ?case by (simp add: fun_eq_iff)
qed

lemma open_w_done:
  assumes "open_w p w = (Inr (), w')"
  shows "dirs w p = None"
    and "fst (os_path_split p) = [] \<or> dirs w (fst (os_path_split p)) \<noteq> None"
    and "files w' = (files w)(p \<mapsto> [])" and "dirs w' = link_entry p (dirs w)"
    and "trace w' = trace w @ [OpenW p]" and "stdin w' = stdin w" and "user w' = user w"
  using assms by (auto simp: open_w_def split: if_splits prod.splits)

lemma open_w_fail: "open_w p w = (Inl e, w') \<Longrightarrow> w' = w"
  by (auto simp: open_w_def split: if_splits prod.splits)

lemma open_w_ok:
  "dirs w p = None \<Longrightarrow> fst (os_path_split p) = [] \<or> dirs w (fst (os_path_split p)) \<noteq> None \<Longrightarrow>
   \<exists>w'. open_w p w = (Inr (), w')"
  by (auto simp: open_w_def split: prod.splits)

lemma save_output_done:
  assumes "save_output fmt_key fmt_value d s w = (Inr (), w')"
  shows "dirs w (d @ ''/part-00000'') = None"
    and "files w' = (files w)(d @ ''/part-00000'' \<mapsto> concat (map (render fmt_key fmt_value) s))"
    and "dirs w' = link_entry (d @ ''/part-00000'') (dirs w)"
    and "trace w' = trace w @ OpenW (d @ ''/part-00000'')
           # map (Write (d @ ''/part-00000'')) (map (render fmt_key fmt_value) s)
           @ [Close (d @ ''/part-00000'')]"
    and "stdin w' = stdin w" and "user w' = user w"
proof -
  let ?p = "d @ ''/part-00000''"
  let ?ts = "map (render fmt_key fmt_value) s"
  obtain r1 w1 where o: "open_w ?p w = (r1, w1)" by (cases "open_w ?p w")
  with assms have ok: "open_w ?p w = (Inr (), w1)"
    and w': "w' = close_file ?p (write_each ?p ?ts w1)"
    by (auto simp: save_output_def split: sum.splits)
  from open_w_done(3) [OF ok] have "files w1 ?p = Some []" by simp
  from write_each_effect [OF this, of ?ts] open_w_done [OF ok] w'
  show "dirs w ?p = None" and "files w' = (files w)(?p \<mapsto> concat ?ts)"
    and "dirs w' = link_entry ?p (dirs w)"
    and "trace w' = trace w @ OpenW ?p # map (Write ?p) ?ts @ [Close ?p]"
    and "stdin w' = stdin w" and "user w' = user w"
    by (simp_all add: close_file_def)
qed

lemma save_output_fail: "save_output fmt_key fmt_value d s w = (Inl e, w') \<Longrightarrow> w' = w"
  by (auto simp: save_output_def split: prod.splits sum.splits dest: open_w_fail)

lemma create_marker_done:
  assumes "create_marker d w = (Inr (), w')"
  shows "dirs w (d @ ''/_SUCCESS'') = None"
    and "files w' = (files w)(d @ ''/_SUCCESS'' \<mapsto> [])"
    and "dirs w' = link_entry (d @ ''/_SUCCESS'') (dirs w)"
    and "trace w' = trace w @ [OpenW (d @ ''/_SUCCESS''), Write (d @ ''/_SUCCESS'') [],
           Close (d @ ''/_SUCCESS'')]"
    and "stdin w' = stdin w" and "user w' = user w"
proof -
  let ?m = "d @ ''/_SUCCESS''"
  obtain r1 w1 where o: "open_w ?m w = (r1, w1)" by (cases "open_w ?m w")
  with assms have ok: "open_w ?m w = (Inr (), w1)"
    and w': "w' = close_file ?m (write_file ?m [] w1)"
    by (auto simp: create_marker_def split: sum.splits)
  from open_w_done [OF ok] w'
  show "dirs w ?m = None" and "files w' = (files w)(?m \<mapsto> [])"
    and "dirs w' = link_entry ?m (dirs w)"
    and "trace w' = trace w @ [OpenW ?m, Write ?m [], Close ?m]"
    and "stdin w' = stdin w" and "user w' = user w"
    by (simp_all add: close_file_def write_file_def)
qed

lemma create_marker_fail: "create_marker d w = (Inl e, w') \<Longrightarrow> w' = w"
  by (auto simp: create_marker_def split: prod.splits sum.splits dest: open_w_fail)

lemma writes_ok:
  assumes "literal_dir d" and "dirs w d \<noteq> None"
    and "dirs w (d @ ''/part-00000'') = None" and "dirs w (d @ ''/_SUCCESS'') = None"
  shows "\<exists>w1 w2. save_output fmt_key fmt_value d s w = (Inr (), w1)
           \<and> create_marker d w1 = (Inr (), w2)"
proof -
  let ?p = "d @ ''/part-00000''" and ?m = "d @ ''/_SUCCESS''"
  from open_w_ok [of w ?p] assms literal_dirD(7) [OF assms(1)]
  obtain w0 where o: "open_w ?p w = (Inr (), w0)" by auto
  then obtain w1 where s: "save_output fmt_key fmt_value d s w = (Inr (), w1)"
    by (simp add: save_output_def)
  from save_output_done(3) [OF s] assms
  have "dirs w1 ?m = None" "dirs w1 d \<noteq> None" by (simp_all add: link_entry_dom)
  with open_w_ok [of w1 ?m] literal_dirD(8) [OF assms(1)]
  obtain w1' where "open_w ?m w1 = (Inr (), w1')" by auto
  then obtain w2 where "create_marker d w1 = (Inr (), w2)"
    by (simp add: create_marker_def)
  with s show ?thesis by blast
qed

lemma writes_done:
  assumes "literal_dir d" and "dirs w d = Some []"
    and "save_output fmt_key fmt_value d s w = (Inr (), w1)"
    and "create_marker d w1 = (Inr (), w2)"
  shows "dirs w2 d = Some [''part-00000'', ''_SUCCESS'']"
    and "files w2 = (files w)(d @ ''/part-00000'' \<mapsto> concat (map (render fmt_key fmt_value) s),
           d @ ''/_SUCCESS'' \<mapsto> [])"
    and "trace w2 = trace w @ OpenW (d @ ''/part-00000'')
           # map (Write (d @ ''/part-00000'')) (map (render fmt_key fmt_value) s)
           @ [Close (d @ ''/part-00000''), OpenW (d @ ''/_SUCCESS''),
              Write (d @ ''/_SUCCESS'') [], Close (d @ ''/_SUCCESS'')]"
    and "stdin w2 = stdin w" and "user w2 = user w"
    and "dirs w2 (d @ ''/part-00000'') = None" and "dirs w2 (d @ ''/_SUCCESS'') = None"
    and "\<forall>q. (dirs w2 q = None) = (dirs w q = None)"
proof -
  let ?p = "d @ ''/part-00000''" and ?m = "d @ ''/_SUCCESS''"
  note s = save_output_done [OF assms(3)] and c = create_marker_done [OF assms(4)]
  note l = literal_dirD [OF assms(1)]
  from s(3) link_entry_at [where ds = "dirs w", OF l(7) assms(2)]
  have d1: "dirs w1 d = Some [''part-00000'']" by simp
  from c(3) link_entry_at [where ds = "dirs w1", OF l(8) d1]
  show "dirs w2 d = Some [''part-00000'', ''_SUCCESS'']" by simp
  from s(2) c(2) show "files w2 = (files w)(?p \<mapsto> concat (map (render fmt_key fmt_value) s),
           ?m \<mapsto> [])" by simp
  from s(4) c(4) show "trace w2 = trace w @ OpenW ?p
           # map (Write ?p) (map (render fmt_key fmt_value) s)
           @ [Close ?p, OpenW ?m, Write ?m [], Close ?m]" by simp
  from s(5) c(5) show "stdin w2 = stdin w" by simp
  from s(6) c(6) show "user w2 = user w" by simp
  from s(1,3) c(3) show "dirs w2 ?p = None" by (simp add: link_entry_dom)
  from c(1,3) show "dirs w2 ?m = None" by (simp add: link_entry_dom)
  from s(3) c(3) show "\<forall>q. (dirs w2 q = None) = (dirs w q = None)"
    by (simp add: link_entry_dom)
qed

lemma create_output_directory_done:
  assumes "literal_dir d" and "create_output_directory d w = (Inr (), w')"
  shows "dirs w' d = Some []" and "files w' d = None"
    and "fst (os_path_split d) = [] \<or> dirs w' (fst (os_path_split d)) \<noteq> None"
    and "path_exists w d \<Longrightarrow> \<exists>w1 w2 anc. remove_each (glob_star w d) w = (Inr (), w1)
           \<and> os_rmdir d w1 = (Inr (), w2) \<and> files w' = files w1
           \<and> trace w' = trace w @ map Remove (glob_star w d) @ Rmdir d # map Mkdir anc @ [Mkdir d]"
proof -
  note l = literal_dirD [OF assms(1)]
  have fin: "dirs w' d = Some [] \<and> files w' d = None
      \<and> (fst (os_path_split d) = [] \<or> dirs w' (fst (os_path_split d)) \<noteq> None)
      \<and> (\<exists>anc. files w' = files w0 \<and> trace w' = trace w0 @ map Mkdir anc @ [Mkdir d])"
    if "makedirs d w0 = (Inr (), w')" for w0
  proof -
    from makedirs_done [OF assms(1) that] obtain w00 anc
      where mk: "os_mkdir d w00 = (Inr (), w')" and f: "files w00 = files w0"
        and t: "trace w00 = trace w0 @ map Mkdir anc" by blast
    note m = os_mkdir_done [OF mk]
    from m(5) have "dirs w' d = Some []" by simp
    moreover from m(1,4) have "files w' d = None" by simp
    moreover from m(3,5) l(5)
    have "fst (os_path_split d) = [] \<or> dirs w' (fst (os_path_split d)) \<noteq> None"
      by (auto simp: link_entry_dom)
    moreover from m(4,6) f t
    have "files w' = files w0 \<and> trace w' = trace w0 @ map Mkdir anc @ [Mkdir d]" by simp
    ultimately show ?thesis by blast
  qed
  from create_output_directory_cases [OF assms(2)]
  consider (new) "\<not> path_exists w d" "makedirs d w = (Inr (), w')"
    | (old) w1 w2 where "path_exists w d" "remove_each (glob_star w d) w = (Inr (), w1)"
        "os_rmdir d w1 = (Inr (), w2)" "makedirs d w2 = (Inr (), w')"
    by auto
  then have "dirs w' d = Some [] \<and> files w' d = None
      \<and> (fst (os_path_split d) = [] \<or> dirs w' (fst (os_path_split d)) \<noteq> None)
      \<and> (path_exists w d \<longrightarrow> (\<exists>w1 w2 anc. remove_each (glob_star w d) w = (Inr (), w1)
           \<and> os_rmdir d w1 = (Inr (), w2) \<and> files w' = files w1
           \<and> trace w' = trace w @ map Remove (glob_star w d) @ Rmdir d # map Mkdir anc @ [Mkdir d]))"
  proof cases
    case new
    with fin [OF new(2)] show ?thesis by blast
  next
    case old
    from fin [OF old(4)] obtain anc where a: "dirs w' d = Some []" "files w' d = None"
      "fst (os_path_split d) = [] \<or> dirs w' (fst (os_path_split d)) \<noteq> None"
      "files w' = files w2" "trace w' = trace w2 @ map Mkdir anc @ [Mkdir d]" by blast
    from remove_each_done [OF old(2)] os_rmdir_done [OF old(3)] a(4,5)
    have "files w' = files w1"
      "trace w' = trace w @ map Remove (glob_star w d) @ Rmdir d # map Mkdir anc @ [Mkdir d]"
      by simp_all
    with a(1,2,3) old(2,3) show ?thesis by blast
  qed
  then show "dirs w' d = Some []" and "files w' d = None"
    and "fst (os_path_split d) = [] \<or> dirs w' (fst (os_path_split d)) \<noteq> None"
    and "path_exists w d \<Longrightarrow> \<exists>w1 w2 anc. remove_each (glob_star w d) w = (Inr (), w1)
           \<and> os_rmdir d w1 = (Inr (), w2) \<and> files w' = files w1
           \<and> trace w' = trace w @ map Remove (glob_star w d) @ Rmdir d # map Mkdir anc @ [Mkdir d]"
    by blast+
qed

section \<open>Lemmas on the whole job\<close>

lemma run_mapreduce_job_cases:
  assumes "run_mapreduce_job fmt_key fmt_value mapper reducer i d w = (r, w')"
  obtains
    (load_fails) e where "load_input i w = (Inl e, w')" "r = Inl e"
  | (mapper_fails) s0 w1 e u1 where "load_input i w = (Inr s0, w1)"
      "mapper s0 (user w1) = (Inl e, u1)" "r = Inl e" "w' = w1\<lparr>user := u1\<rparr>"
  | (reducer_fails) s0 w1 s1 u1 e u2 where "load_input i w = (Inr s0, w1)"
      "mapper s0 (user w1) = (Inr s1, u1)" "reducer (shuffle_and_sort s1) u1 = (Inl e, u2)"
      "r = Inl e" "w' = w1\<lparr>user := u2\<rparr>"
  | (reset_fails) s0 w1 s1 u1 s2 u2 e where "load_input i w = (Inr s0, w1)"
      "mapper s0 (user w1) = (Inr s1, u1)" "reducer (shuffle_and_sort s1) u1 = (Inr s2, u2)"
      "create_output_directory d (w1\<lparr>user := u2\<rparr>) = (Inl e, w')" "r = Inl e"
  | (save_fails) s0 w1 s1 u1 s2 u2 w3 e where "load_input i w = (Inr s0, w1)"
      "mapper s0 (user w1) = (Inr s1, u1)" "reducer (shuffle_and_sort s1) u1 = (Inr s2, u2)"
      "create_output_directory d (w1\<lparr>user := u2\<rparr>) = (Inr (), w3)"
      "save_output fmt_key fmt_value d s2 w3 = (Inl e, w')" "r = Inl e"
  | (marker_fails) s0 w1 s1 u1 s2 u2 w3 w4 e where "load_input i w = (Inr s0, w1)"
      "mapper s0 (user w1) = (Inr s1, u1)" "reducer (shuffle_and_sort s1) u1 = (Inr s2, u2)"
      "create_output_directory d (w1\<lparr>user := u2\<rparr>) = (Inr (), w3)"
      "save_output fmt_key fmt_value d s2 w3 = (Inr (), w4)"
      "create_marker d w4 = (Inl e, w')" "r = Inl e"
  | (completes) s0 w1 s1 u1 s2 u2 w3 w4 where "load_input i w = (Inr s0, w1)"
      "mapper s0 (user w1) = (Inr s1, u1)" "reducer (shuffle_and_sort s1) u1 = (Inr s2, u2)"
      "create_output_directory d (w1\<lparr>user := u2\<rparr>) = (Inr (), w3)"
      "save_output fmt_key fmt_value d s2 w3 = (Inr (), w4)"
      "create_marker d w4 = (Inr (), w')" "r = Inr ()"
proof -
  note defs = run_mapreduce_job_def and_then_def call_user_def
  obtain r0 w1 where l: "load_input i w = (r0, w1)" by (cases "load_input i w")
  show ?thesis
  proof (cases r0)
    case (Inl e)
    with assms l have "r = Inl e" "w' = w1" by (simp_all add: defs)
    with l Inl show ?thesis by (intro load_fails [of e]) simp_all
  next
    case s0: (Inr s0)
    obtain r1 u1 where m: "mapper s0 (user w1) = (r1, u1)" by (cases "mapper s0 (user w1)")
    show ?thesis
    proof (cases r1)
      case (Inl e)
      with assms l s0 m have "r = Inl e" "w' = w1\<lparr>user := u1\<rparr>" by (simp_all add: defs)
      with l s0 m Inl show ?thesis by (intro mapper_fails [of s0 w1 e u1]) simp_all
    next
      case s1: (Inr s1)
      obtain r2 u2 where rd: "reducer (shuffle_and_sort s1) u1 = (r2, u2)"
        by (cases "reducer (shuffle_and_sort s1) u1")
      show ?thesis
      proof (cases r2)
        case (Inl e)
        with assms l s0 m s1 rd have "r = Inl e" "w' = w1\<lparr>user := u2\<rparr>"
          by (simp_all add: defs)
        with l s0 m s1 rd Inl show ?thesis
          by (intro reducer_fails [of s0 w1 s1 u1 e u2]) simp_all
      next
        case s2: (Inr s2)
        obtain r3 w3 where c: "create_output_directory d (w1\<lparr>user := u2\<rparr>) = (r3, w3)"
          by (cases "create_output_directory d (w1\<lparr>user := u2\<rparr>)")
        show ?thesis
        proof (cases r3)
          case (Inl e)
          with assms l s0 m s1 rd s2 c have "r = Inl e" "w' = w3" by (simp_all add: defs)
          with l s0 m s1 rd s2 c Inl show ?thesis
            by (intro reset_fails [of s0 w1 s1 u1 s2 u2 e]) simp_all
        next
          case r3: (Inr x3)
          obtain r4 w4 where sv: "save_output fmt_key fmt_value d s2 w3 = (r4, w4)"
            by (cases "save_output fmt_key fmt_value d s2 w3")
          show ?thesis
          proof (cases r4)
            case (Inl e)
            with assms l s0 m s1 rd s2 c r3 sv have "r = Inl e" "w' = w4"
              by (simp_all add: defs)
            with l s0 m s1 rd s2 c r3 sv Inl show ?thesis
              by (intro save_fails [of s0 w1 s1 u1 s2 u2 w3 e]) simp_all
          next
            case r4: (Inr x4)
            from assms l s0 m s1 rd s2 c r3 sv r4 have mk: "create_marker d w4 = (r, w')"
              by (simp add: defs)
            show ?thesis
            proof (cases r)
              case (Inl e)
              with l s0 m s1 rd s2 c r3 sv r4 mk show ?thesis
                by (intro marker_fails [of s0 w1 s1 u1 s2 u2 w3 w4 e]) simp_all
            next
              case (Inr x5)
              with l s0 m s1 rd s2 c r3 sv r4 mk show ?thesis
                by (intro completes [of s0 w1 s1 u1 s2 u2 w3 w4]) simp_all
            qed
          qed
        qed
      qed
    qed
  qed
qed

lemma run_completes:
  assumes "literal_dir d"
    and "run_mapreduce_job fmt_key fmt_value mapper reducer i d w = (Inr (), w')"
  obtains s0 w1 s1 u1 s2 u2 w3 where "load_input i w = (Inr s0, w1)"
    and "mapper s0 (user w1) = (Inr s1, u1)" and "reducer (shuffle_and_sort s1) u1 = (Inr s2, u2)"
    and "create_output_directory d (w1\<lparr>user := u2\<rparr>) = (Inr (), w3)"
    and "dirs w' d = Some [''part-00000'', ''_SUCCESS'']"
    and "files w' = (files w3)(d @ ''/part-00000'' \<mapsto> concat (map (render fmt_key fmt_value) s2),
           d @ ''/_SUCCESS'' \<mapsto> [])"
    and "trace w' = trace w3 @ OpenW (d @ ''/part-00000'')
           # map (Write (d @ ''/part-00000'')) (map (render fmt_key fmt_value) s2)
           @ [Close (d @ ''/part-00000''), OpenW (d @ ''/_SUCCESS''),
              Write (d @ ''/_SUCCESS'') [], Close (d @ ''/_SUCCESS'')]"
    and "user w' = u2" and "stdin w' = stdin w1"
    and "dirs w' (d @ ''/part-00000'') = None" and "dirs w' (d @ ''/_SUCCESS'') = None"
    and "files w' d = None"
    and "fst (os_path_split d) = [] \<or> dirs w' (fst (os_path_split d)) \<noteq> None"
  using assms(2)
proof (cases rule: run_mapreduce_job_cases)
  case (completes s0 w1 s1 u1 s2 u2 w3 w4)
  note c = create_output_directory_done [OF assms(1) completes(4)]
  note wd = writes_done [OF assms(1) c(1) completes(5,6)]
  from create_output_directory_step [OF completes(4)]
  have u: "user w3 = u2" "stdin w3 = stdin w1" by (simp_all add: reset_step_def)
  from wd(2) c(2) have fd: "files w' d = None" by simp
  from wd(8) c(3)
  have par: "fst (os_path_split d) = [] \<or> dirs w' (fst (os_path_split d)) \<noteq> None" by simp
  from that [OF completes(1,2,3,4) wd(1,2,3)] wd(4,5,6,7) u fd par show ?thesis by simp
qed simp_all

lemma create_output_directory_again:
  assumes "literal_dir d" and "dirs w d = Some [''part-00000'', ''_SUCCESS'']"
    and "files w (d @ ''/part-00000'') \<noteq> None" and "files w (d @ ''/_SUCCESS'') \<noteq> None"
    and "files w d = None"
    and "dirs w (d @ ''/part-00000'') = None" and "dirs w (d @ ''/_SUCCESS'') = None"
    and "fst (os_path_split d) = [] \<or> dirs w (fst (os_path_split d)) \<noteq> None"
  shows "\<exists>w3. create_output_directory d w = (Inr (), w3) \<and> dirs w3 d = Some []
           \<and> dirs w3 (d @ ''/part-00000'') = None \<and> dirs w3 (d @ ''/_SUCCESS'') = None"
proof -
  let ?p = "d @ ''/part-00000''" and ?m = "d @ ''/_SUCCESS''"
  note l = literal_dirD [OF assms(1)]
  have ex: "path_exists w d" using assms(2) by (simp add: path_exists_def)
  have g: "glob_star w d = map (\<lambda>n. d @ ''/'' @ n) [''part-00000'', ''_SUCCESS'']"
    using assms(2) by (simp add: glob_star_def ishidden_def)
  have "distinct (glob_star w d)" "\<forall>p\<in>set (glob_star w d). files w p \<noteq> None"
    using assms(3,4) by (simp_all add: g)
  from remove_each_ok [OF this] obtain w1 where r: "remove_each (glob_star w d) w = (Inr (), w1)"
    by blast
  from remove_each_listing [OF l(1,2) _ assms(2) r [unfolded g]]
  have d1: "dirs w1 d = Some []" by simp
  from os_rmdir_ok [OF d1] obtain w2 where rm: "os_rmdir d w1 = (Inr (), w2)" by blast
  note rd = remove_each_done [OF r] and od = os_rmdir_done [OF rm]
  from remove_each_step [OF r] assms(5) have "files w1 d = None"
    by (cases "files w1 d") (auto simp: reset_step_def)
  with od(2) have f2: "files w2 d = None" by simp
  from od(3) have d2: "dirs w2 d = None" by simp
  from assms(8) rd od(3) l(5)
  have p2: "fst (os_path_split d) = [] \<or> dirs w2 (fst (os_path_split d)) \<noteq> None"
    by (auto simp: unlink_entry_dom)
  from makedirs_ok [OF assms(1) f2 d2 p2] obtain w3
    where mk: "makedirs d w2 = (Inr (), w3)" and om: "os_mkdir d w2 = (Inr (), w3)" by blast
  from os_mkdir_done(5) [OF om] od(3) rd assms(6,7)
  have "dirs w3 d = Some []" "dirs w3 ?p = None" "dirs w3 ?m = None"
    by (simp_all add: link_entry_dom unlink_entry_dom)
  moreover from ex r rm mk have "create_output_directory d w = (Inr (), w3)"
    by (simp add: create_output_directory_def and_then_def)
  ultimately show ?thesis by blast
qed

lemma lines_of_line:
  "CHR 0x0A \<notin> set l \<Longrightarrow> lines_of (l @ CHR 0x0A # rest) = (l @ [CHR 0x0A]) # lines_of rest"
  by (induction l) auto

lemma lines_of_rendered:
  "\<forall>r\<in>set s. CHR 0x0A \<notin> set (fmt_key (fst r)) \<and> CHR 0x0A \<notin> set (fmt_value (snd r)) \<Longrightarrow>
   lines_of (concat (map (render fmt_key fmt_value) s)) = map (render fmt_key fmt_value) s"
proof (induction s)
  case Nil
  then show ?case by simp
next
  case (Cons r s)
  from Cons.prems have "CHR 0x0A \<notin> set (fmt_key (fst r) @ [CHR 0x09] @ fmt_value (snd r))"
    by simp
  from lines_of_line [OF this] Cons show ?case
    by (simp add: render_def)
qed

section \<open>Properties of the loader\<close>

text \<open>
  C1 (the code departs from the claim): for an input directory that is empty, or that
  does not exist, the glob is empty, \<^verbatim>\<open>fileinput\<close> turns the empty list of files
  into the standard input, and the loader returns one record per line waiting there,
  under the name \<^verbatim>\<open><stdin>\<close>, instead of the empty sequence.
\<close>

theorem load_input_empty_reads_stdin:
  "dirs example_world ''empty'' = Some []
   \<and> fst (load_input ''empty'' example_world) = Inr [(''<stdin>'', ''s\<newline>'')]
   \<and> \<not> path_exists example_world ''missing''
   \<and> fst (load_input ''missing'' example_world) = Inr [(''<stdin>'', ''s\<newline>'')]"
  by (simp add: load_input_def glob_star_def fileinput_input_def example_world_def
        path_exists_def)

text \<open>
  C3 (the code departs from the claim): an entry whose name begins with a dot is not
  enumerated, against the claim and against the loader's own description, which reads
  all the files of the directory. The input directory of the example lists \<^verbatim>\<open>a\<close>,
  \<^verbatim>\<open>.hidden\<close> and \<^verbatim>\<open>c\<close>, all regular files; the line of \<^verbatim>\<open>.hidden\<close> gives no
  record.
\<close>

theorem load_input_skips_hidden_entry:
  "dirs example_world ''in'' = Some [''a'', ''.hidden'', ''c'']
   \<and> files example_world ''in/.hidden'' = Some ''z\<newline>''
   \<and> fst (load_input ''in'' example_world)
       = Inr [(''in/a'', ''b\<newline>''), (''in/a'', ''a\<newline>''), (''in/c'', ''a'')]"
  by (simp add: load_input_def glob_star_def fileinput_input_def example_world_def ishidden_def)

text \<open>
  What the loader does with the entries it does enumerate, those whose name does not
  begin with a dot: when there is at least one and each of them is a regular file, it
  returns, in the order of the listing, one record (path of the entry, line) per line of
  each; and an entry that is no regular file (a subdirectory, say) is not passed over and
  not descended into, it is opened like the others, and the loader raises.
\<close>

lemma load_input_visible_entries:
  assumes "dirs w d = Some names"
    and "filter (\<lambda>n. \<not> ishidden n) names \<noteq> []"
    and "\<forall>n\<in>set names. \<not> ishidden n \<longrightarrow> files w (d @ ''/'' @ n) \<noteq> None"
  shows "load_input d w =
    (Inr (concat (map (\<lambda>n. map (Pair (d @ ''/'' @ n)) (lines_of (the (files w (d @ ''/'' @ n)))))
       (filter (\<lambda>n. \<not> ishidden n) names))), w)"
proof -
  have g: "glob_star w d = map (\<lambda>n. d @ ''/'' @ n) (filter (\<lambda>n. \<not> ishidden n) names)"
    using assms(1) by (simp add: glob_star_def)
  have ne: "glob_star w d \<noteq> []" using g assms(2) by simp
  have ok: "\<forall>p\<in>set (glob_star w d). p \<noteq> ''-'' \<and> files w p \<noteq> None"
    using g assms(3) joined_not_dash by auto
  show ?thesis
    using fileinput_lines_files [OF ok] ne
    by (simp add: load_input_def fileinput_input_def g map_concat comp_def)
qed

lemma fileinput_lines_unreadable:
  "p \<in> set ps \<Longrightarrow> files w p = None \<Longrightarrow> ''-'' \<notin> set ps \<Longrightarrow>
   \<exists>e. fst (fileinput_lines ps w) = Inl e"
proof (induction ps)
  case Nil
  then show ?case by simp
next
  case (Cons q ps)
  show ?case
  proof (cases "files w q")
    case None
    with Cons.prems(3) show ?thesis by auto
  next
    case (Some content)
    with Cons.prems have "p \<in> set ps" "''-'' \<notin> set ps" by auto
    from Cons.IH [OF this(1) Cons.prems(2) this(2)] obtain e
      where "fst (fileinput_lines ps w) = Inl e" by blast
    with Some Cons.prems(3) show ?thesis
      by (cases "fileinput_lines ps w") auto
  qed
qed

lemma load_input_entry_not_a_file:
  assumes "dirs w d = Some names" and "n \<in> set names" and "\<not> ishidden n"
    and "files w (d @ ''/'' @ n) = None"
  shows "\<exists>e. fst (load_input d w) = Inl e"
proof -
  from assms(1,2,3) have "d @ ''/'' @ n \<in> set (glob_star w d)"
    by (simp add: glob_star_def)
  moreover from this have "glob_star w d \<noteq> []" by auto
  ultimately show ?thesis
    using fileinput_lines_unreadable [OF _ assms(4) glob_star_not_dash, of w d]
    by (simp add: load_input_def fileinput_input_def)
qed

text \<open>
  C4: in the sequence the loader returns, the records of any one file it read form one
  contiguous block, which is the lines of that file in their own order: before the block
  and after it there is no record of that file. (The names of a directory listing are
  distinct.)
\<close>

theorem load_input_contiguous:
  assumes "literal_dir d" and "dirs w d = Some names" and "distinct names"
    and "load_input d w = (Inr recs, w')" and "p \<in> set (glob_star w d)"
  shows "\<exists>pre post. recs = pre @ map (Pair p) (lines_of (the (files w p))) @ post
            \<and> p \<notin> fst ` set pre \<and> p \<notin> fst ` set post"
proof -
  let ?ps = "glob_star w d"
  let ?blocks = "\<lambda>ps. concat (map (\<lambda>p. map (Pair p) (lines_of (the (files w p)))) ps)"
  have dist: "distinct ?ps"
    using assms(2,3) by (simp add: glob_star_def distinct_map inj_on_def)
  from assms(5) have ne: "?ps \<noteq> []" by auto
  with assms(4) have "fileinput_lines ?ps w = (Inr recs, w')"
    by (simp add: load_input_def fileinput_input_def)
  from fileinput_lines_success [OF this glob_star_not_dash]
  have recs: "recs = ?blocks ?ps" by simp
  from assms(5) obtain ps1 ps2 where sp: "?ps = ps1 @ p # ps2"
    by (auto dest: split_list)
  with dist have "p \<notin> set ps1" "p \<notin> set ps2" by auto
  with blocks_keys [of "\<lambda>p. lines_of (the (files w p))"]
  have "p \<notin> fst ` set (?blocks ps1)" "p \<notin> fst ` set (?blocks ps2)" by blast+
  moreover have "recs = ?blocks ps1 @ map (Pair p) (lines_of (the (files w p))) @ ?blocks ps2"
    using recs sp by simp
  ultimately show ?thesis by blast
qed

theorem load_input_contiguous_witness:
  "\<exists>pre post. [(''in/a'', ''b\<newline>''), (''in/a'', ''a\<newline>''), (''in/c'', ''a'')]
       = pre @ map (Pair ''in/a'') (lines_of ''b\<newline>a\<newline>'') @ post
     \<and> ''in/a'' \<notin> fst ` set pre \<and> ''in/a'' \<notin> fst ` set post"
proof -
  have h1: "literal_dir ''in''" by (simp add: literal_dir_def os_path_split_def)
  have h2: "dirs example_world ''in'' = Some [''a'', ''.hidden'', ''c'']"
    by (simp add: example_world_def)
  have h3: "distinct [''a'', ''.hidden'', ''c'']" by simp
  have h4: "load_input ''in'' example_world
       = (Inr [(''in/a'', ''b\<newline>''), (''in/a'', ''a\<newline>''), (''in/c'', ''a'')], example_world)"
    by (simp add: load_input_def glob_star_def fileinput_input_def example_world_def
          ishidden_def)
  have h5: "''in/a'' \<in> set (glob_star example_world ''in'')"
    by (simp add: glob_star_def example_world_def ishidden_def)
  have v: "the (files example_world ''in/a'') = ''b\<newline>a\<newline>''"
    by (simp add: example_world_def)
  from load_input_contiguous [OF h1 h2 h3 h4 h5] show ?thesis
    unfolding v .
qed

section \<open>The example runs, evaluated\<close>

lemma literal_examples: "literal_dir ''in''" "literal_dir ''out''" "literal_dir ''shared''"
  by (simp_all add: literal_dir_def os_path_split_def)

lemma example_load:
  "load_input ''in'' example_world
     = (Inr [(''in/a'', ''b\<newline>''), (''in/a'', ''a\<newline>''), (''in/c'', ''a'')], example_world)"
  by (simp add: load_input_def glob_star_def fileinput_input_def example_world_def ishidden_def)

lemma example_run_completes: "example_run = (Inr (), snd example_run)"
proof -
  have "fst example_run = Inr ()" by code_simp
  then show ?thesis by (simp add: prod_eq_iff)
qed

section \<open>Properties of the writer\<close>

text \<open>
  C5, as stated, fails: a record whose key or value holds a newline takes more than one
  line of the result file. With the echo mapper the reducer returns three records, and
  the file has five lines.
\<close>

theorem save_output_newline_splits_record:
  "fst example_echo_run = Inr ()
   \<and> fst (echo_reducer (shuffle_and_sort
        [(''b\<newline>'', ''in/a''), (''a\<newline>'', ''in/a''), (''a'', ''in/c'')]) (1, 0))
       = Inr [(''a'', ''in/c''), (''a\<newline>'', ''in/a''), (''b\<newline>'', ''in/a'')]
   \<and> map_option lines_of (files (snd example_echo_run) ''out/part-00000'')
       = Some [''a'' @ [CHR 0x09] @ ''in/c\<newline>'', ''a\<newline>'', [CHR 0x09] @ ''in/a\<newline>'',
               ''b\<newline>'', [CHR 0x09] @ ''in/a\<newline>'']"
  by code_simp

text \<open>
  C5, amended: when the job completes, the result file \<^verbatim>\<open>part-00000\<close> holds, for each
  record the reducer returned and in the reducer's order, the key, one tab, the value and
  one newline, each record written by one write and nothing sorted again; this is exactly
  one line per record whenever no key and no value holds a newline.
\<close>

theorem run_writes_reducer_output:
  assumes "literal_dir i" and "literal_dir d"
    and "load_input i w = (Inr s0, w1)" and "mapper s0 (user w1) = (Inr s1, u1)"
    and "reducer (shuffle_and_sort s1) u1 = (Inr s2, u2)"
    and "run_mapreduce_job fmt_key fmt_value mapper reducer i d w = (Inr (), w')"
  shows "files w' (d @ ''/part-00000'') = Some (concat (map (render fmt_key fmt_value) s2))
    \<and> (\<exists>evs. list_all reset_event evs
          \<and> trace w' = trace w @ evs @ OpenW (d @ ''/part-00000'')
              # map (Write (d @ ''/part-00000'')) (map (render fmt_key fmt_value) s2)
              @ [Close (d @ ''/part-00000''), OpenW (d @ ''/_SUCCESS''),
                 Write (d @ ''/_SUCCESS'') [], Close (d @ ''/_SUCCESS'')])
    \<and> ((\<forall>r\<in>set s2. CHR 0x0A \<notin> set (fmt_key (fst r)) \<and> CHR 0x0A \<notin> set (fmt_value (snd r)))
         \<longrightarrow> lines_of (concat (map (render fmt_key fmt_value) s2))
             = map (render fmt_key fmt_value) s2)"
proof (rule run_completes [OF assms(2,6)])
  fix s0' w1' s1' u1' s2' u2' w3
  assume c1: "load_input i w = (Inr s0', w1')"
    and c2: "mapper s0' (user w1') = (Inr s1', u1')"
    and c3: "reducer (shuffle_and_sort s1') u1' = (Inr s2', u2')"
    and c4: "create_output_directory d (w1'\<lparr>user := u2'\<rparr>) = (Inr (), w3)"
    and c5: "files w' = (files w3)(d @ ''/part-00000'' \<mapsto> concat (map (render fmt_key fmt_value) s2'),
           d @ ''/_SUCCESS'' \<mapsto> [])"
    and c6: "trace w' = trace w3 @ OpenW (d @ ''/part-00000'')
           # map (Write (d @ ''/part-00000'')) (map (render fmt_key fmt_value) s2')
           @ [Close (d @ ''/part-00000''), OpenW (d @ ''/_SUCCESS''),
              Write (d @ ''/_SUCCESS'') [], Close (d @ ''/_SUCCESS'')]"
  from c1 assms(3) have e1: "s0' = s0" "w1' = w1" by simp_all
  with c2 assms(4) have e2: "s1' = s1" "u1' = u1" by simp_all
  with c3 assms(5) have e: "s2' = s2" by simp
  from create_output_directory_step [OF c4] have "\<exists>evs. trace w3 = trace (w1'\<lparr>user := u2'\<rparr>) @ evs
      \<and> list_all reset_event evs" by (simp add: reset_step_def)
  then obtain evs where t: "trace w3 = trace w1 @ evs" "list_all reset_event evs"
    using e1 by auto
  from load_input_frame [OF assms(3)] have tw: "trace w1 = trace w" by simp
  from c5 e have a: "files w' (d @ ''/part-00000'')
      = Some (concat (map (render fmt_key fmt_value) s2))" by simp
  have b: "\<exists>evs. list_all reset_event evs
          \<and> trace w' = trace w @ evs @ OpenW (d @ ''/part-00000'')
              # map (Write (d @ ''/part-00000'')) (map (render fmt_key fmt_value) s2)
              @ [Close (d @ ''/part-00000''), OpenW (d @ ''/_SUCCESS''),
                 Write (d @ ''/_SUCCESS'') [], Close (d @ ''/_SUCCESS'')]"
  proof (rule exI [of _ evs])
    from c6 e t tw show "list_all reset_event evs
          \<and> trace w' = trace w @ evs @ OpenW (d @ ''/part-00000'')
              # map (Write (d @ ''/part-00000'')) (map (render fmt_key fmt_value) s2)
              @ [Close (d @ ''/part-00000''), OpenW (d @ ''/_SUCCESS''),
                 Write (d @ ''/_SUCCESS'') [], Close (d @ ''/_SUCCESS'')]"
      by simp
  qed
  have l: "(\<forall>r\<in>set s2. CHR 0x0A \<notin> set (fmt_key (fst r)) \<and> CHR 0x0A \<notin> set (fmt_value (snd r)))
         \<longrightarrow> lines_of (concat (map (render fmt_key fmt_value) s2))
             = map (render fmt_key fmt_value) s2"
    by (intro impI lines_of_rendered)
  show ?thesis by (rule conjI [OF a conjI [OF b l]])
qed

theorem run_writes_reducer_output_witness:
  "files (snd example_run) ''out/part-00000''
     = Some (''a'' @ [CHR 0x09] @ ''1\<newline>a'' @ [CHR 0x09] @ ''1\<newline>b'' @ [CHR 0x09] @ ''1\<newline>'')
   \<and> lines_of (''a'' @ [CHR 0x09] @ ''1\<newline>a'' @ [CHR 0x09] @ ''1\<newline>b'' @ [CHR 0x09] @ ''1\<newline>'')
     = [''a'' @ [CHR 0x09] @ ''1\<newline>'', ''a'' @ [CHR 0x09] @ ''1\<newline>'', ''b'' @ [CHR 0x09] @ ''1\<newline>'']"
proof -
  let ?s2 = "[(''a'', ''1''), (''a'', ''1''), (''b'', ''1'')]"
  have h4: "word_mapper [(''in/a'', ''b\<newline>''), (''in/a'', ''a\<newline>''), (''in/c'', ''a'')]
      (user example_world) = (Inr [(''b'', ''1''), (''a'', ''1''), (''a'', ''1'')], (1, 0))"
    by (simp add: word_mapper_def example_world_def)
  have h5: "echo_reducer (shuffle_and_sort [(''b'', ''1''), (''a'', ''1''), (''a'', ''1'')]) (1, 0)
      = (Inr ?s2, (1, 1))"
    by (simp add: echo_reducer_def shuffle_and_sort_def)
  have h7: "\<forall>r\<in>set ?s2. CHR 0x0A \<notin> set (fst r) \<and> CHR 0x0A \<notin> set (snd r)" by simp
  from run_writes_reducer_output [OF literal_examples(1,2) example_load h4 h5
      example_run_completes [unfolded example_run_def]] h7
  show ?thesis by (simp add: render_def example_run_def)
qed

section \<open>Properties of the marker\<close>

lemma example_failed_run_fails:
  "example_failed_run = (Inl (UserError ''boom''), snd example_failed_run)"
proof -
  have "fst example_failed_run = Inl (UserError ''boom'')" by code_simp
  then show ?thesis by (simp add: prod_eq_iff)
qed

lemma reset_events_no_write:
  "list_all reset_event evs \<Longrightarrow> OpenW q \<notin> set evs \<and> Write q t \<notin> set evs"
  by (auto simp: list_all_iff)

lemma reset_stage_frame:
  assumes "load_input i w = (Inr s0, w1)"
    and "create_output_directory d (w1\<lparr>user := u2\<rparr>) = (r3, w3)"
  shows "\<exists>evs. trace w3 = trace w @ evs \<and> list_all reset_event evs"
    and "files w3 q \<noteq> None \<Longrightarrow> files w3 q = files w q"
proof -
  note f = load_input_frame [OF assms(1)]
  from create_output_directory_step [OF assms(2)]
  have s: "\<exists>evs. trace w3 = trace (w1\<lparr>user := u2\<rparr>) @ evs \<and> list_all reset_event evs"
    and g: "\<forall>q. files w3 q \<noteq> None \<longrightarrow> files w3 q = files (w1\<lparr>user := u2\<rparr>) q"
    by (simp_all add: reset_step_def)
  from s f show "\<exists>evs. trace w3 = trace w @ evs \<and> list_all reset_event evs" by simp
  from g f show "files w3 q \<noteq> None \<Longrightarrow> files w3 q = files w q" by simp
qed

text \<open>
  C6, as stated, fails in one direction: after a run that fails, a marker left in the
  output directory by an earlier run is still there, because the directory is reset only
  after the reducer has returned. In the example the mapper raises, the run fails without
  a single system call on the output directory, and the old marker exists afterwards.
\<close>

theorem stale_marker_after_failed_run:
  "files example_world ''out/_SUCCESS'' = Some []
   \<and> fst example_failed_run = Inl (UserError ''boom'')
   \<and> trace (snd example_failed_run) = []
   \<and> files (snd example_failed_run) ''out/_SUCCESS'' = Some []"
  by code_simp

text \<open>
  C6, amended: in every run the marker is opened and written only after the result file
  has been written and closed. A run that completes without error leaves the (empty)
  marker, written last. A run that fails writes no marker at all, so after a failed run a
  marker exists only if it was already there before the run.
\<close>

theorem marker_written_last:
  assumes "literal_dir i" and "literal_dir d"
    and "run_mapreduce_job fmt_key fmt_value mapper reducer i d w = (r, w')"
  shows "(r = Inr () \<longrightarrow>
            files w' (d @ ''/_SUCCESS'') = Some []
            \<and> (\<exists>evs texts. list_all reset_event evs
                 \<and> trace w' = trace w @ evs @ OpenW (d @ ''/part-00000'')
                     # map (Write (d @ ''/part-00000'')) texts
                     @ [Close (d @ ''/part-00000''), OpenW (d @ ''/_SUCCESS''),
                        Write (d @ ''/_SUCCESS'') [], Close (d @ ''/_SUCCESS'')]))
       \<and> (r \<noteq> Inr () \<longrightarrow>
            (files w' (d @ ''/_SUCCESS'') \<noteq> None \<longrightarrow> files w (d @ ''/_SUCCESS'') \<noteq> None)
            \<and> (\<exists>evs. trace w' = trace w @ evs
                 \<and> OpenW (d @ ''/_SUCCESS'') \<notin> set evs
                 \<and> Write (d @ ''/_SUCCESS'') [] \<notin> set evs))"
proof -
  let ?p = "d @ ''/part-00000''" and ?m = "d @ ''/_SUCCESS''"
  let ?F = "(files w' ?m \<noteq> None \<longrightarrow> files w ?m \<noteq> None)
            \<and> (\<exists>evs. trace w' = trace w @ evs \<and> OpenW ?m \<notin> set evs \<and> Write ?m [] \<notin> set evs)"
  have same: ?F if "files w' = files w" "trace w' = trace w"
  proof -
    from that(2) have "trace w' = trace w @ [] \<and> OpenW ?m \<notin> set [] \<and> Write ?m [] \<notin> set []"
      by simp
    then have "\<exists>evs. trace w' = trace w @ evs \<and> OpenW ?m \<notin> set evs \<and> Write ?m [] \<notin> set evs"
      by (rule exI [of _ "[]"])
    with that(1) show ?thesis by simp
  qed
  have reset: ?F
    if l: "load_input i w = (Inr s0, w1)"
      and c: "create_output_directory d (w1\<lparr>user := u2\<rparr>) = (r3, w')" for s0 w1 u2 r3
  proof -
    from reset_stage_frame(1) [OF l c] obtain evs
      where t: "trace w' = trace w @ evs" "list_all reset_event evs" by auto
    from t reset_events_no_write [OF t(2)]
    have "trace w' = trace w @ evs \<and> OpenW ?m \<notin> set evs \<and> Write ?m [] \<notin> set evs" by simp
    then have "\<exists>evs. trace w' = trace w @ evs \<and> OpenW ?m \<notin> set evs \<and> Write ?m [] \<notin> set evs"
      by (rule exI [of _ evs])
    moreover from reset_stage_frame(2) [OF l c, of ?m]
    have "files w' ?m \<noteq> None \<longrightarrow> files w ?m \<noteq> None" by auto
    ultimately show ?thesis by simp
  qed
  from assms(3) show ?thesis
  proof (cases rule: run_mapreduce_job_cases)
    case (load_fails e)
    from load_input_frame [OF load_fails(1)] have ?F by (intro same) simp_all
    with load_fails(2) show ?thesis by simp
  next
    case (mapper_fails s0 w1 e u1)
    from load_input_frame [OF mapper_fails(1)] mapper_fails(4) have ?F
      by (intro same) simp_all
    with mapper_fails(3) show ?thesis by simp
  next
    case (reducer_fails s0 w1 s1 u1 e u2)
    from load_input_frame [OF reducer_fails(1)] reducer_fails(5) have ?F
      by (intro same) simp_all
    with reducer_fails(4) show ?thesis by simp
  next
    case (reset_fails s0 w1 s1 u1 s2 u2 e)
    from reset [OF reset_fails(1,4)] reset_fails(5) show ?thesis by simp
  next
    case (save_fails s0 w1 s1 u1 s2 u2 w3 e)
    from save_output_fail [OF save_fails(5)] save_fails(4)
    have "create_output_directory d (w1\<lparr>user := u2\<rparr>) = (Inr (), w')" by simp
    from reset [OF save_fails(1) this] save_fails(6) show ?thesis by simp
  next
    case (marker_fails s0 w1 s1 u1 s2 u2 w3 w4 e)
    from create_marker_fail [OF marker_fails(6)] have w4: "w4 = w'" by simp
    note sv = save_output_done [OF marker_fails(5)]
    from reset_stage_frame(1) [OF marker_fails(1,4)] obtain evs
      where t: "trace w3 = trace w @ evs" "list_all reset_event evs" by auto
    let ?evs = "evs @ OpenW ?p # map (Write ?p) (map (render fmt_key fmt_value) s2) @ [Close ?p]"
    from sv(4) t w4 reset_events_no_write [OF t(2)]
    have "trace w' = trace w @ ?evs \<and> OpenW ?m \<notin> set ?evs \<and> Write ?m [] \<notin> set ?evs"
      by auto
    then have "\<exists>evs. trace w' = trace w @ evs \<and> OpenW ?m \<notin> set evs \<and> Write ?m [] \<notin> set evs"
      by (rule exI [of _ ?evs])
    moreover from sv(2) w4 reset_stage_frame(2) [OF marker_fails(1,4), of ?m]
    have "files w' ?m \<noteq> None \<longrightarrow> files w ?m \<noteq> None" by auto
    ultimately show ?thesis using marker_fails(7) by simp
  next
    case (completes s0 w1 s1 u1 s2 u2 w3 w4)
    note c = create_output_directory_done [OF assms(2) completes(4)]
    note wd = writes_done [OF assms(2) c(1) completes(5,6)]
    from reset_stage_frame(1) [OF completes(1,4)] obtain evs
      where t: "trace w3 = trace w @ evs" "list_all reset_event evs" by auto
    let ?texts = "map (render fmt_key fmt_value) s2"
    from wd(3) t have "list_all reset_event evs
        \<and> trace w' = trace w @ evs @ OpenW ?p # map (Write ?p) ?texts
             @ [Close ?p, OpenW ?m, Write ?m [], Close ?m]" by simp
    then have "\<exists>texts. list_all reset_event evs
        \<and> trace w' = trace w @ evs @ OpenW ?p # map (Write ?p) texts
             @ [Close ?p, OpenW ?m, Write ?m [], Close ?m]"
      by (rule exI [of _ ?texts])
    then have "\<exists>evs texts. list_all reset_event evs
        \<and> trace w' = trace w @ evs @ OpenW ?p # map (Write ?p) texts
             @ [Close ?p, OpenW ?m, Write ?m [], Close ?m]"
      by (rule exI [of _ evs])
    moreover from wd(2) have "files w' ?m = Some []" by simp
    ultimately show ?thesis using completes(7) by simp
  qed
qed

theorem marker_written_last_witness:
  "files (snd example_run) ''out/_SUCCESS'' = Some []
   \<and> (\<exists>evs texts. list_all reset_event evs
        \<and> trace (snd example_run) = trace example_world @ evs @ OpenW ''out/part-00000''
            # map (Write ''out/part-00000'') texts
            @ [Close ''out/part-00000'', OpenW ''out/_SUCCESS'',
               Write ''out/_SUCCESS'' [], Close ''out/_SUCCESS''])
   \<and> (\<exists>evs. trace (snd example_failed_run) = trace example_world @ evs
        \<and> OpenW ''out/_SUCCESS'' \<notin> set evs \<and> Write ''out/_SUCCESS'' [] \<notin> set evs)"
proof -
  from marker_written_last [OF literal_examples(1,2) example_run_completes [unfolded example_run_def]]
  have a: "files (snd example_run) ''out/_SUCCESS'' = Some []
   \<and> (\<exists>evs texts. list_all reset_event evs
        \<and> trace (snd example_run) = trace example_world @ evs @ OpenW ''out/part-00000''
            # map (Write ''out/part-00000'') texts
            @ [Close ''out/part-00000'', OpenW ''out/_SUCCESS'',
               Write ''out/_SUCCESS'' [], Close ''out/_SUCCESS''])"
    by (simp add: example_run_def)
  from marker_written_last [OF literal_examples(1,2)
      example_failed_run_fails [unfolded example_failed_run_def]]
  have b: "\<exists>evs. trace (snd example_failed_run) = trace example_world @ evs
        \<and> OpenW ''out/_SUCCESS'' \<notin> set evs \<and> Write ''out/_SUCCESS'' [] \<notin> set evs"
    by (simp add: example_failed_run_def)
  from a b show ?thesis by simp
qed

section \<open>Properties of the output directory\<close>

text \<open>
  C7: for an output directory that exists before the run, stale files included, a run that
  completes has first removed every prior entry, then the directory itself, has created
  the directory anew, and leaves in it exactly the result file and the marker; no file of
  the old listing is left. (The names of a listing hold no slash. A run can complete only
  when every prior entry is a regular file with a name not beginning with a dot.)
\<close>

theorem run_replaces_output_directory:
  assumes "literal_dir i" and "literal_dir d" and "dirs (w :: 'u world) d = Some names"
    and "\<forall>n\<in>set names. CHR ''/'' \<notin> set n"
    and "run_mapreduce_job fmt_key fmt_value mapper reducer i d w = (Inr (), w')"
  shows "dirs w' d = Some [''part-00000'', ''_SUCCESS'']
    \<and> files w' (d @ ''/part-00000'') \<noteq> None
    \<and> files w' (d @ ''/_SUCCESS'') = Some []
    \<and> (\<forall>n\<in>set names. \<not> ishidden n
          \<and> (n \<noteq> ''part-00000'' \<and> n \<noteq> ''_SUCCESS'' \<longrightarrow> files w' (d @ ''/'' @ n) = None))
    \<and> (\<exists>anc writes. \<not> list_ex reset_event writes
          \<and> trace w' = trace w @ map (\<lambda>n. Remove (d @ ''/'' @ n)) names
                @ Rmdir d # map Mkdir anc @ Mkdir d # writes)"
proof (rule run_completes [OF assms(2,5)])
  fix s0 s1 u1 s2 u2 and w1 w3 :: "'u world"
  let ?p = "d @ ''/part-00000''" and ?m = "d @ ''/_SUCCESS''"
  let ?w = "w1\<lparr>user := u2\<rparr>"
  let ?visible = "filter (\<lambda>n. \<not> ishidden n) names"
  let ?writes = "OpenW ?p # map (Write ?p) (map (render fmt_key fmt_value) s2)
           @ [Close ?p, OpenW ?m, Write ?m [], Close ?m]"
  assume l: "load_input i w = (Inr s0, w1)"
    and c: "create_output_directory d ?w = (Inr (), w3)"
    and d': "dirs w' d = Some [''part-00000'', ''_SUCCESS'']"
    and f': "files w' = (files w3)(?p \<mapsto> concat (map (render fmt_key fmt_value) s2), ?m \<mapsto> [])"
    and t': "trace w' = trace w3 @ ?writes"
  note lit = literal_dirD [OF assms(2)]
  note fr = load_input_frame [OF l]
  from fr assms(3) have dw: "dirs ?w d = Some names" by simp
  then have ex: "path_exists ?w d" by (simp add: path_exists_def)
  have g: "glob_star ?w d = map (\<lambda>n. d @ ''/'' @ n) ?visible"
    using dw by (simp add: glob_star_def)
  from create_output_directory_done(4) [OF assms(2) c ex] obtain wa wb anc
    where r: "remove_each (glob_star ?w d) ?w = (Inr (), wa)"
      and rm: "os_rmdir d wa = (Inr (), wb)" and fa: "files w3 = files wa"
      and t3: "trace w3 = trace ?w @ map Remove (glob_star ?w d) @ Rmdir d # map Mkdir anc @ [Mkdir d]"
    by blast
  from assms(4) have vs: "\<forall>n\<in>set ?visible. CHR ''/'' \<notin> set n" by simp
  from remove_each_listing [OF lit(1,2) vs dw r [unfolded g]] os_rmdir_done(1) [OF rm]
  have "filter (\<lambda>n. n \<notin> set ?visible) names = []" by simp
  then have allv: "\<forall>n\<in>set names. \<not> ishidden n" by (auto simp: filter_empty_conv)
  then have vis: "?visible = names" by simp
  from remove_each_done [OF r] g vis have "\<forall>n\<in>set names. files wa (d @ ''/'' @ n) = None"
    by simp
  with fa f' have gone: "\<forall>n\<in>set names. n \<noteq> ''part-00000'' \<and> n \<noteq> ''_SUCCESS''
      \<longrightarrow> files w' (d @ ''/'' @ n) = None" by simp
  from t' t3 fr g vis have tr: "trace w' = trace w @ map (\<lambda>n. Remove (d @ ''/'' @ n)) names
                @ Rmdir d # map Mkdir anc @ Mkdir d # ?writes"
    by (simp add: comp_def)
  have nw: "\<not> list_ex reset_event ?writes" by (auto simp: list_ex_iff)
  from nw tr have "\<exists>writes. \<not> list_ex reset_event writes
          \<and> trace w' = trace w @ map (\<lambda>n. Remove (d @ ''/'' @ n)) names
                @ Rmdir d # map Mkdir anc @ Mkdir d # writes"
    by (intro exI [of _ ?writes] conjI)
  then have e: "\<exists>anc writes. \<not> list_ex reset_event writes
          \<and> trace w' = trace w @ map (\<lambda>n. Remove (d @ ''/'' @ n)) names
                @ Rmdir d # map Mkdir anc @ Mkdir d # writes"
    by (rule exI [of _ anc])
  from f' have fp: "files w' ?p \<noteq> None" and fm: "files w' ?m = Some []" by simp_all
  from allv gone have both: "\<forall>n\<in>set names. \<not> ishidden n
          \<and> (n \<noteq> ''part-00000'' \<and> n \<noteq> ''_SUCCESS'' \<longrightarrow> files w' (d @ ''/'' @ n) = None)"
    by simp
  show ?thesis by (rule conjI [OF d' conjI [OF fp conjI [OF fm conjI [OF both e]]]])
qed

theorem run_replaces_output_directory_witness:
  "dirs example_world ''out'' = Some [''stale'', ''_SUCCESS'']
   \<and> files example_world ''out/stale'' = Some ''old''
   \<and> dirs (snd example_run) ''out'' = Some [''part-00000'', ''_SUCCESS'']
   \<and> files (snd example_run) ''out/part-00000'' \<noteq> None
   \<and> files (snd example_run) ''out/_SUCCESS'' = Some []
   \<and> files (snd example_run) ''out/stale'' = None
   \<and> (\<exists>anc writes. \<not> list_ex reset_event writes
        \<and> trace (snd example_run) = trace example_world
             @ [Remove ''out/stale'', Remove ''out/_SUCCESS'']
             @ Rmdir ''out'' # map Mkdir anc @ Mkdir ''out'' # writes)"
proof -
  have h3: "dirs example_world ''out'' = Some [''stale'', ''_SUCCESS'']"
    and h0: "files example_world ''out/stale'' = Some ''old''"
    by (simp_all add: example_world_def)
  have h4: "\<forall>n\<in>set [''stale'', ''_SUCCESS'']. CHR ''/'' \<notin> set n" by simp
  from run_replaces_output_directory [OF literal_examples(1,2) h3 h4
      example_run_completes [unfolded example_run_def]] h3 h0
  show ?thesis by (simp add: example_run_def)
qed

section \<open>Properties of the orchestrator\<close>

text \<open>
  C8: the mapper is applied once, to the whole loaded sequence, and the reducer once, to
  the whole sorted sequence. The loader leaves the user's state alone; an exception of
  the mapper, or of the reducer, is the result of the run as it is, with the state the
  callable left; and when both return, the user's state after the run is the state after
  this one call of the mapper followed by this one call of the reducer.
\<close>

theorem user_code_called_once:
  assumes "literal_dir i" and "literal_dir d"
    and "load_input i (w :: 'u world) = (Inr loaded, wl)"
  shows "user wl = user w
    \<and> (mapper loaded (user w) = (Inl e, um) \<longrightarrow>
         run_mapreduce_job fmt_key fmt_value mapper reducer i d w = (Inl e, wl\<lparr>user := um\<rparr>))
    \<and> (mapper loaded (user w) = (Inr mapped, um)
         \<and> reducer (shuffle_and_sort mapped) um = (Inl e, ur) \<longrightarrow>
         run_mapreduce_job fmt_key fmt_value mapper reducer i d w = (Inl e, wl\<lparr>user := ur\<rparr>))
    \<and> (mapper loaded (user w) = (Inr mapped, um)
         \<and> reducer (shuffle_and_sort mapped) um = (Inr reduced, ur) \<longrightarrow>
         user (snd (run_mapreduce_job fmt_key fmt_value mapper reducer i d w)) = ur)"
proof -
  note defs = run_mapreduce_job_def and_then_def call_user_def
  from load_input_frame [OF assms(3)] have u: "user wl = user w" by simp
  have a: "mapper loaded (user w) = (Inl e, um) \<longrightarrow>
         run_mapreduce_job fmt_key fmt_value mapper reducer i d w = (Inl e, wl\<lparr>user := um\<rparr>)"
    using assms(3) u by (simp add: defs)
  have b: "mapper loaded (user w) = (Inr mapped, um)
         \<and> reducer (shuffle_and_sort mapped) um = (Inl e, ur) \<longrightarrow>
         run_mapreduce_job fmt_key fmt_value mapper reducer i d w = (Inl e, wl\<lparr>user := ur\<rparr>)"
    using assms(3) u by (simp add: defs)
  have c: "mapper loaded (user w) = (Inr mapped, um)
         \<and> reducer (shuffle_and_sort mapped) um = (Inr reduced, ur) \<longrightarrow>
         user (snd (run_mapreduce_job fmt_key fmt_value mapper reducer i d w)) = ur"
  proof (intro impI, elim conjE)
    assume m: "mapper loaded (user w) = (Inr mapped, um)"
      and r: "reducer (shuffle_and_sort mapped) um = (Inr reduced, ur)"
    obtain res w' where run: "run_mapreduce_job fmt_key fmt_value mapper reducer i d w = (res, w')"
      by (cases "run_mapreduce_job fmt_key fmt_value mapper reducer i d w")
    have ru: "user w3 = ur" if "create_output_directory d (wl\<lparr>user := ur\<rparr>) = (r3, w3)"
      for r3 and w3 :: "'u world"
      using create_output_directory_step [OF that] by (simp add: reset_step_def)
    from run have "user w' = ur"
    proof (cases rule: run_mapreduce_job_cases)
      case (load_fails e)
      with assms(3) show ?thesis by simp
    next
      case (mapper_fails s0 w1 e u1)
      with assms(3) m u show ?thesis by simp
    next
      case (reducer_fails s0 w1 s1 u1 e u2)
      with assms(3) m r u show ?thesis by simp
    next
      case (reset_fails s0 w1 s1 u1 s2 u2 e)
      with assms(3) m r u have "create_output_directory d (wl\<lparr>user := ur\<rparr>) = (Inl e, w')"
        by simp
      then show ?thesis by (rule ru)
    next
      case (save_fails s0 w1 s1 u1 s2 u2 w3 e)
      with assms(3) m r u have "create_output_directory d (wl\<lparr>user := ur\<rparr>) = (Inr (), w3)"
        by simp
      from ru [OF this] save_output_fail [OF save_fails(5)] show ?thesis by simp
    next
      case (marker_fails s0 w1 s1 u1 s2 u2 w3 w4 e)
      with assms(3) m r u have "create_output_directory d (wl\<lparr>user := ur\<rparr>) = (Inr (), w3)"
        by simp
      from ru [OF this] save_output_done(6) [OF marker_fails(5)]
        create_marker_fail [OF marker_fails(6)] show ?thesis by simp
    next
      case (completes s0 w1 s1 u1 s2 u2 w3 w4)
      with assms(3) m r u have "create_output_directory d (wl\<lparr>user := ur\<rparr>) = (Inr (), w3)"
        by simp
      from ru [OF this] save_output_done(6) [OF completes(5)]
        create_marker_done(6) [OF completes(6)] show ?thesis by simp
    qed
    with run show "user (snd (run_mapreduce_job fmt_key fmt_value mapper reducer i d w)) = ur"
      by simp
  qed
  show ?thesis by (rule conjI [OF u conjI [OF a conjI [OF b c]]])
qed

theorem user_code_called_once_witness:
  "user example_world = (0, 0)
   \<and> example_failed_run = (Inl (UserError ''boom''), example_world\<lparr>user := (1, 0)\<rparr>)
   \<and> run_mapreduce_job (\<lambda>k. k) (\<lambda>v. v) word_mapper failing_reducer ''in'' ''out'' example_world
       = (Inl (UserError ''bang''), example_world\<lparr>user := (1, 1)\<rparr>)
   \<and> user (snd example_run) = (1, 1)"
proof -
  let ?loaded = "[(''in/a'', ''b\<newline>''), (''in/a'', ''a\<newline>''), (''in/c'', ''a'')]"
  let ?mapped = "[(''b'', ''1''), (''a'', ''1''), (''a'', ''1'')]"
  have u0: "user example_world = (0, 0)" by (simp add: example_world_def)
  have m1: "failing_mapper ?loaded (user example_world) = (Inl (UserError ''boom''), (1, 0))"
    by (simp add: failing_mapper_def u0)
  have m2: "word_mapper ?loaded (user example_world) = (Inr ?mapped, (1, 0))"
    by (simp add: word_mapper_def u0)
  have r2: "failing_reducer (shuffle_and_sort ?mapped) (1, 0) = (Inl (UserError ''bang''), (1, 1))"
    by (simp add: failing_reducer_def)
  have r3: "echo_reducer (shuffle_and_sort ?mapped) (1, 0)
      = (Inr (shuffle_and_sort ?mapped), (1, 1))"
    by (simp add: echo_reducer_def)
  from user_code_called_once [OF literal_examples(1,2) example_load,
      where mapper = failing_mapper and e = "UserError ''boom''" and um = "(1, 0)"
        and reducer = echo_reducer and fmt_key = "\<lambda>k. k" and fmt_value = "\<lambda>v. v"] m1
  have a: "example_failed_run = (Inl (UserError ''boom''), example_world\<lparr>user := (1, 0)\<rparr>)"
    by (simp add: example_failed_run_def)
  from user_code_called_once [OF literal_examples(1,2) example_load,
      where mapper = word_mapper and e = "UserError ''bang''" and um = "(1, 0)"
        and mapped = ?mapped and ur = "(1, 1)"
        and reducer = failing_reducer and fmt_key = "\<lambda>k. k" and fmt_value = "\<lambda>v. v"] m2 r2
  have b: "run_mapreduce_job (\<lambda>k. k) (\<lambda>v. v) word_mapper failing_reducer ''in'' ''out''
      example_world = (Inl (UserError ''bang''), example_world\<lparr>user := (1, 1)\<rparr>)"
    by simp
  from user_code_called_once [OF literal_examples(1,2) example_load,
      where mapper = word_mapper and um = "(1, 0)"
        and mapped = ?mapped and ur = "(1, 1)" and reduced = "shuffle_and_sort ?mapped"
        and reducer = echo_reducer and fmt_key = "\<lambda>k. k" and fmt_value = "\<lambda>v. v"] m2 r3
  have c: "user (snd example_run) = (1, 1)"
    by (simp add: example_run_def)
  from u0 a b c show ?thesis by simp
qed

section \<open>Running the job twice\<close>

lemma example_callables_deterministic: "deterministic word_mapper" "deterministic echo_reducer"
  by (simp_all add: deterministic_def word_mapper_def echo_reducer_def)

lemma example_second_load:
  "fst (load_input ''in'' (snd example_run)) = fst (load_input ''in'' example_world)"
  by code_simp

text \<open>
  C9 (the code departs from the claim): with a fixed input directory apart from the
  output directory, a deterministic mapper and a deterministic reducer, two runs in
  succession leave different contents in the output directory when the input directory
  has no visible entry. The loader then reads the standard input: the first run reads it
  to its end, the second finds nothing left there and writes an empty result.
\<close>

theorem second_run_differs_on_empty_input:
  "dirs example_world ''empty'' = Some []
   \<and> dirs (snd empty_first_run) ''empty'' = Some []
   \<and> fst empty_first_run = Inr ()
   \<and> dir_contents (snd empty_first_run) ''out''
       = Some [(''part-00000'', Some (''s'' @ [CHR 0x09] @ ''1\<newline>'')), (''_SUCCESS'', Some [])]
   \<and> fst empty_second_run = Inr ()
   \<and> dir_contents (snd empty_second_run) ''out''
       = Some [(''part-00000'', Some []), (''_SUCCESS'', Some [])]"
  by code_simp

text \<open>
  Where the standard input plays no part the second run repeats the first: with a
  deterministic mapper and a deterministic reducer, when the first run completes and the
  loader reads in the second run the same sequence as in the first, the second run
  completes too and leaves the output directory with the same contents as the first.
\<close>

lemma second_run_same_output:
  assumes "literal_dir i" and "literal_dir d"
    and "deterministic mapper" and "deterministic reducer"
    and "run_mapreduce_job fmt_key fmt_value mapper reducer i d (w :: 'u world) = (Inr (), w1)"
    and "fst (load_input i w1) = fst (load_input i w)"
  shows "\<exists>w2. run_mapreduce_job fmt_key fmt_value mapper reducer i d w1 = (Inr (), w2)
           \<and> dir_contents w2 d = dir_contents w1 d
           \<and> dir_contents w1 d
               = Some [(''part-00000'', files w1 (d @ ''/part-00000'')), (''_SUCCESS'', Some [])]"
proof (rule run_completes [OF assms(2,5)])
  fix s0 s1 u1 s2 u2 and wa w3 :: "'u world"
  let ?p = "d @ ''/part-00000''" and ?m = "d @ ''/_SUCCESS''"
  let ?content = "concat (map (render fmt_key fmt_value) s2)"
  assume l: "load_input i w = (Inr s0, wa)"
    and m: "mapper s0 (user wa) = (Inr s1, u1)"
    and r: "reducer (shuffle_and_sort s1) u1 = (Inr s2, u2)"
    and d1: "dirs w1 d = Some [''part-00000'', ''_SUCCESS'']"
    and f1: "files w1 = (files w3)(?p \<mapsto> ?content, ?m \<mapsto> [])"
    and dp: "dirs w1 ?p = None" and dm: "dirs w1 ?m = None"
    and fd: "files w1 d = None"
    and par: "fst (os_path_split d) = [] \<or> dirs w1 (fst (os_path_split d)) \<noteq> None"
  obtain rb wb where lb: "load_input i w1 = (rb, wb)" by (cases "load_input i w1")
  with assms(6) l have rb: "rb = Inr s0" by simp
  note fb = load_input_frame [OF lb]
  obtain rm um where mb: "mapper s0 (user wb) = (rm, um)" by (cases "mapper s0 (user wb)")
  from assms(3) have "fst (mapper s0 (user wb)) = fst (mapper s0 (user wa))"
    unfolding deterministic_def by blast
  with mb m have rm: "rm = Inr s1" by simp
  obtain rr ur where rdb: "reducer (shuffle_and_sort s1) um = (rr, ur)"
    by (cases "reducer (shuffle_and_sort s1) um")
  from assms(4) have "fst (reducer (shuffle_and_sort s1) um) = fst (reducer (shuffle_and_sort s1) u1)"
    unfolding deterministic_def by blast
  with rdb r have rr: "rr = Inr s2" by simp
  let ?w = "wb\<lparr>user := ur\<rparr>"
  have fp: "files w1 ?p = Some ?content" and fm: "files w1 ?m = Some []"
    using f1 by simp_all
  have "dirs ?w d = Some [''part-00000'', ''_SUCCESS'']" "files ?w ?p \<noteq> None"
    "files ?w ?m \<noteq> None" "files ?w d = None" "dirs ?w ?p = None" "dirs ?w ?m = None"
    "fst (os_path_split d) = [] \<or> dirs ?w (fst (os_path_split d)) \<noteq> None"
    using fb d1 fp fm fd dp dm par by simp_all
  from create_output_directory_again [OF assms(2) this] obtain w3'
    where c': "create_output_directory d ?w = (Inr (), w3')" and d3: "dirs w3' d = Some []"
      and p3: "dirs w3' ?p = None" and m3: "dirs w3' ?m = None" by blast
  from d3 have "dirs w3' d \<noteq> None" by simp
  from writes_ok [OF assms(2) this p3 m3, of fmt_key fmt_value s2] obtain w4' w5'
    where sv: "save_output fmt_key fmt_value d s2 w3' = (Inr (), w4')"
      and mk: "create_marker d w4' = (Inr (), w5')" by blast
  note wd = writes_done [OF assms(2) d3 sv mk]
  have run2: "run_mapreduce_job fmt_key fmt_value mapper reducer i d w1 = (Inr (), w5')"
    using lb rb mb rm rdb rr c' sv mk
    by (simp add: run_mapreduce_job_def and_then_def call_user_def)
  have c1: "dir_contents w1 d = Some [(''part-00000'', files w1 ?p), (''_SUCCESS'', Some [])]"
    using d1 fm by (simp add: dir_contents_def)
  have c2: "dir_contents w5' d = Some [(''part-00000'', Some ?content), (''_SUCCESS'', Some [])]"
    using wd(1,2) by (simp add: dir_contents_def)
  from c1 c2 fp have same: "dir_contents w5' d = dir_contents w1 d" by simp
  show ?thesis
    by (rule exI [of _ w5']) (rule conjI [OF run2 conjI [OF same c1]])
qed

lemma second_run_same_output_example:
  "fst example_run = Inr () \<and> fst example_second_run = Inr ()
   \<and> dir_contents (snd example_second_run) ''out'' = dir_contents (snd example_run) ''out''
   \<and> dir_contents (snd example_run) ''out''
       = Some [(''part-00000'', files (snd example_run) ''out/part-00000''), (''_SUCCESS'', Some [])]"
proof -
  from second_run_same_output [OF literal_examples(1,2) example_callables_deterministic
      example_run_completes [unfolded example_run_def]
      example_second_load [unfolded example_run_def]]
  obtain w2 where a: "example_second_run = (Inr (), w2)"
    and b: "dir_contents w2 ''out'' = dir_contents (snd example_run) ''out''"
    and c: "dir_contents (snd example_run) ''out''
       = Some [(''part-00000'', files (snd example_run) ''out/part-00000''), (''_SUCCESS'', Some [])]"
    unfolding example_second_run_def example_run_def by auto
  from arg_cong [OF a, of fst] arg_cong [OF a, of snd]
  have "fst example_second_run = Inr ()" "snd example_second_run = w2" by simp_all
  moreover from arg_cong [OF example_run_completes, of fst] have "fst example_run = Inr ()"
    by simp
  ultimately show ?thesis using b c by simp
qed

section \<open>Properties of the shuffle and sort stage\<close>

text \<open>
  C2: for every finite sequence of (key, value) pairs the stage returns the same records
  as a multiset, with keys ascending, and stably: the records of any one key come out in
  their input order. For string keys the order is the lexicographic one.
\<close>

theorem shuffle_and_sort_stable_permutation:
  "mset (shuffle_and_sort sequence) = mset sequence
   \<and> sorted (map fst (shuffle_and_sort sequence))
   \<and> filter (\<lambda>x. fst x = k) (shuffle_and_sort sequence) = filter (\<lambda>x. fst x = k) sequence
   \<and> (((a::string) < b) = ((a, b) \<in> lexord {(u, v). u < v}))"
  unfolding shuffle_and_sort_def
  by (simp add: sort_key_stable list_less_def)

lemma sort_key_map_commute: "sort_key f (map g xs) = map g (sort_key (\<lambda>x. f (g x)) xs)"
proof (induction xs)
  case Nil
  show ?case by simp
next
  case (Cons x xs)
  have ins: "insort_key f (g x) (map g ys) = map g (insort_key (\<lambda>x. f (g x)) x ys)" for ys
    by (induction ys) simp_all
  from Cons show ?case by (simp add: ins)
qed

lemma positions_carry_values:
  "map (\<lambda>(k, i). (k, snd (xs ! i))) (zip (map fst xs) [0..<length xs]) = xs"
  by (rule nth_equalityI) simp_all

lemma shuffle_and_sort_map_values:
  "shuffle_and_sort (map (\<lambda>(k, v). (k, g v)) ys) = map (\<lambda>(k, v). (k, g v)) (shuffle_and_sort ys)"
  unfolding shuffle_and_sort_def
  by (simp add: sort_key_map_commute case_prod_beta)

lemma shuffle_and_sort_mixed_values:
  "shuffle_and_sort [(''b'', Inl (1 :: int)), (''a'', Inr ''x''), (''b'', Inr ''y''), (''a'', Inl 2)]
     = [(''a'', Inr ''x''), (''a'', Inl 2), (''b'', Inl 1), (''b'', Inr ''y'')]"
  by (simp add: shuffle_and_sort_def)

text \<open>
  C10: the stage looks at the keys only. The value type of \<open>shuffle_and_sort\<close> carries no
  ordering (it is any type, also one whose elements cannot be compared), the keys come
  out as the sorted keys, the stage commutes with every change \<open>f\<close> of the values, and the
  place each record goes to is the place its position goes to when the keys are sorted
  with the positions as values: the output order depends on the values only through the
  key each value is paired with.
\<close>

theorem shuffle_and_sort_keys_only:
  "map fst (shuffle_and_sort sequence) = sort (map fst sequence)
   \<and> shuffle_and_sort (map (\<lambda>(k, v). (k, f v)) sequence)
       = map (\<lambda>(k, v). (k, f v)) (shuffle_and_sort sequence)
   \<and> shuffle_and_sort sequence
       = map (\<lambda>(k, i). (k, snd (sequence ! i)))
           (shuffle_and_sort (zip (map fst sequence) [0..<length sequence]))"
proof -
  have a: "map fst (shuffle_and_sort sequence) = sort (map fst sequence)"
    unfolding shuffle_and_sort_def using sort_key_map_commute [of "\<lambda>x. x" fst sequence] by simp
  have c: "shuffle_and_sort sequence
       = map (\<lambda>(k, i). (k, snd (sequence ! i)))
           (shuffle_and_sort (zip (map fst sequence) [0..<length sequence]))"
    using shuffle_and_sort_map_values
            [of "\<lambda>i. snd (sequence ! i)" "zip (map fst sequence) [0..<length sequence]"]
    by (simp add: positions_carry_values)
  from a c shuffle_and_sort_map_values [of f sequence] show ?thesis by blast
qed

end
